theory Spec2Isabelle
  imports Main "HOL-Library.AList"
begin

section \<open>The account pool of src/main/proxy/accountPool.ts\<close>

text \<open>
  The class \<open>AccountPool\<close> keeps a JavaScript \<open>Map\<close> from account ids to account
  records, a second \<open>Map\<close> of usage statistics, the rotation cursor \<open>currentIndex\<close>
  and its configuration. A JavaScript \<open>Map\<close> iterates in insertion order, \<open>set\<close> on an
  existing key keeps the key's position and \<open>set\<close> on a new key appends: this is an
  association list with \<open>AList.update\<close>, \<open>AList.delete\<close> and \<open>map_of\<close>.
  Every method becomes a function from the pool (and the value of \<open>Date.now()\<close>) to
  its result and the new pool. Numbers are millisecond timestamps, durations and
  counters; they are integers here. An optional field is an \<open>option\<close>, \<open>None\<close>
  standing for \<open>undefined\<close>.
\<close>

subsection \<open>Data\<close>

datatype ErrorType = Quota | Auth | Network | Server | Unknown

record AccountPoolConfig =
  cooldownMs :: int
  maxErrorCount :: int
  quotaResetMs :: int
  networkCooldownMs :: int
  serverCooldownMs :: int
  autoRecoverMs :: int
  expiryGracePeriodMs :: int

definition DEFAULT_CONFIG :: AccountPoolConfig where
  "DEFAULT_CONFIG =
     \<lparr> cooldownMs = 60000, maxErrorCount = 3, quotaResetMs = 3600000,
       networkCooldownMs = 10000, serverCooldownMs = 30000,
       autoRecoverMs = 300000, expiryGracePeriodMs = 60000 \<rparr>"

text \<open>
  Modelled from the spec: the interfaces \<open>ProxyAccount\<close> and \<open>AccountStats\<close> are
  declared in \<open>./types\<close>, which is not among the sources. The records below hold
  the fields that accountPool.ts reads and writes, with the types the spec's data
  model gives them (identity, liveness flag, failure tracking, credential lifetime,
  usage counters). The field \<open>id\<close> of the source is \<open>accountId\<close> here and the
  \<open>lastUsed\<close> of the statistics is \<open>statsLastUsed\<close>.
\<close>

record ProxyAccount =
  accountId :: string
  email :: "string option"
  isAvailable :: "bool option"
  requestCount :: "int option"
  errorCount :: "int option"
  lastUsed :: "int option"
  cooldownUntil :: "int option"
  autoRecoverAt :: "int option"
  expiresAt :: "int option"

text \<open>
  \<open>Partial<ProxyAccount>\<close>, the argument of \<open>updateAccount\<close>: every field may be absent
  (\<open>None\<close>) or present with a value; an optional field may be present with the value
  \<open>undefined\<close> (\<open>Some None\<close>), which the spread then stores.
\<close>

record ProxyAccountUpdates =
  upd_accountId :: "string option"
  upd_email :: "string option option"
  upd_isAvailable :: "bool option option"
  upd_requestCount :: "int option option"
  upd_errorCount :: "int option option"
  upd_lastUsed :: "int option option"
  upd_cooldownUntil :: "int option option"
  upd_autoRecoverAt :: "int option option"
  upd_expiresAt :: "int option option"

record AccountStats =
  requests :: int
  tokens :: int
  inputTokens :: int
  outputTokens :: int
  errors :: int
  statsLastUsed :: int
  avgResponseTime :: int
  totalResponseTime :: int

record AccountPool =
  accounts :: "(string \<times> ProxyAccount) list"
  accountStats :: "(string \<times> AccountStats) list"
  currentIndex :: nat
  config :: AccountPoolConfig

text \<open>The constructor, given the merged configuration.\<close>

definition newAccountPool :: "AccountPoolConfig \<Rightarrow> AccountPool" where
  "newAccountPool cfg = \<lparr> accounts = [], accountStats = [], currentIndex = 0, config = cfg \<rparr>"

text \<open>
  The exceptions of the class. Reading a property of \<open>undefined\<close> throws a \<open>TypeError\<close>
  (\<open>getNextAccount\<close> with the cursor past the end of the list). The log lines of
  \<open>recordError\<close> format a deadline with \<open>new Date(t).toISOString()\<close>, which throws a
  \<open>RangeError\<close> when \<open>t\<close> is outside the range of time values of a \<open>Date\<close>,
  8640000000000000 milliseconds on either side of 1970.
\<close>

datatype error = TypeError | RangeError

definition isValidDate :: "int \<Rightarrow> bool" where
  "isValidDate t = (- 8640000000000000 \<le> t \<and> t \<le> 8640000000000000)"

text \<open>
  JavaScript truthiness of an optional number: \<open>undefined\<close> and \<open>0\<close> are falsy.
  \<open>v || 0\<close> is \<open>orZero v\<close>, and \<open>v && v <= now\<close> in a condition is
  \<open>truthy v \<and> orZero v \<le> now\<close>.
\<close>

definition truthy :: "int option \<Rightarrow> bool" where
  "truthy v = (case v of None \<Rightarrow> False | Some n \<Rightarrow> n \<noteq> 0)"

definition orZero :: "int option \<Rightarrow> int" where
  "orZero v = (case v of None \<Rightarrow> 0 | Some n \<Rightarrow> n)"

subsection \<open>Registry operations\<close>

definition addAccount :: "AccountPool \<Rightarrow> ProxyAccount \<Rightarrow> AccountPool" where
  "addAccount p account =
     p\<lparr> accounts := AList.update (accountId account)
           (account\<lparr> isAvailable := Some True, requestCount := Some 0,
                     errorCount := Some 0, lastUsed := Some 0 \<rparr>) (accounts p),
        accountStats := AList.update (accountId account)
           \<lparr> requests = 0, tokens = 0, inputTokens = 0, outputTokens = 0, errors = 0,
             statsLastUsed = 0, avgResponseTime = 0, totalResponseTime = 0 \<rparr>
           (accountStats p) \<rparr>"

definition removeAccount :: "AccountPool \<Rightarrow> string \<Rightarrow> AccountPool" where
  "removeAccount p k =
     p\<lparr> accounts := AList.delete k (accounts p),
        accountStats := AList.delete k (accountStats p) \<rparr>"

text \<open>\<open>{ ...account, ...updates }\<close>: a field present in \<open>updates\<close> replaces the account's.\<close>

definition spread :: "'a \<Rightarrow> 'a option \<Rightarrow> 'a" where
  "spread v u = (case u of None \<Rightarrow> v | Some w \<Rightarrow> w)"

definition updateAccount :: "AccountPool \<Rightarrow> string \<Rightarrow> ProxyAccountUpdates \<Rightarrow> AccountPool" where
  "updateAccount p k updates =
     (case map_of (accounts p) k of
        None \<Rightarrow> p
      | Some account \<Rightarrow>
          p\<lparr> accounts := AList.update k
               \<lparr> accountId = spread (accountId account) (upd_accountId updates),
                 email = spread (email account) (upd_email updates),
                 isAvailable = spread (isAvailable account) (upd_isAvailable updates),
                 requestCount = spread (requestCount account) (upd_requestCount updates),
                 errorCount = spread (errorCount account) (upd_errorCount updates),
                 lastUsed = spread (lastUsed account) (upd_lastUsed updates),
                 cooldownUntil = spread (cooldownUntil account) (upd_cooldownUntil updates),
                 autoRecoverAt = spread (autoRecoverAt account) (upd_autoRecoverAt updates),
                 expiresAt = spread (expiresAt account) (upd_expiresAt updates) \<rparr>
               (accounts p) \<rparr>)"

definition getAccount :: "AccountPool \<Rightarrow> string \<Rightarrow> ProxyAccount option" where
  "getAccount p k = map_of (accounts p) k"

definition getAllAccounts :: "AccountPool \<Rightarrow> ProxyAccount list" where
  "getAllAccounts p = map snd (accounts p)"

definition clear :: "AccountPool \<Rightarrow> AccountPool" where
  "clear p = p\<lparr> accounts := [], accountStats := [], currentIndex := 0 \<rparr>"

text \<open>The getter \<open>size\<close>.\<close>

definition poolSize :: "AccountPool \<Rightarrow> nat" where
  "poolSize p = length (accounts p)"

text \<open>\<open>getStats\<close>: a copy of the statistics and the three totals.\<close>

definition getStats :: "AccountPool \<Rightarrow> (string \<times> AccountStats) list \<times> int \<times> int \<times> int" where
  "getStats p =
     (accountStats p,
      sum_list (map (\<lambda>(k, stats). requests stats) (accountStats p)),
      sum_list (map (\<lambda>(k, stats). tokens stats) (accountStats p)),
      sum_list (map (\<lambda>(k, stats). errors stats) (accountStats p)))"

subsection \<open>The availability predicate\<close>

text \<open>
  \<open>isAccountAvailable\<close> writes the recovered record into the map when the
  auto-recover deadline has passed, so it returns the pool with its answer.
\<close>

definition recovered :: "ProxyAccount \<Rightarrow> ProxyAccount" where
  "recovered account =
     account\<lparr> isAvailable := Some True, autoRecoverAt := None,
              errorCount := Some 0, cooldownUntil := None \<rparr>"

definition isAccountAvailable :: "AccountPool \<Rightarrow> ProxyAccount \<Rightarrow> int \<Rightarrow> bool \<times> AccountPool" where
  "isAccountAvailable p account now =
     (if truthy (autoRecoverAt account) \<and> orZero (autoRecoverAt account) \<le> now then
        (True, p\<lparr> accounts := AList.update (accountId account) (recovered account) (accounts p) \<rparr>)
      else if truthy (autoRecoverAt account) \<and> orZero (autoRecoverAt account) > now then
        (False, p)
      else if truthy (cooldownUntil account) \<and> orZero (cooldownUntil account) > now then
        (False, p)
      else if orZero (errorCount account) \<ge> maxErrorCount (config p) then
        (False, p)
      else if truthy (expiresAt account)
              \<and> orZero (expiresAt account) + expiryGracePeriodMs (config p) < now then
        (False, p)
      else (isAvailable account \<noteq> Some False, p))"

subsection \<open>Selection\<close>

text \<open>
  \<open>getAccountWithShortestCooldown\<close>: the loop carries \<open>bestAccount\<close> and
  \<open>shortestWait\<close>, which starts at \<open>Infinity\<close> (\<open>None\<close> here).
\<close>

fun shortestCooldown_loop ::
  "ProxyAccount list \<Rightarrow> int \<Rightarrow> ProxyAccount option \<Rightarrow> int option \<Rightarrow> ProxyAccount option" where
  "shortestCooldown_loop [] now bestAccount shortestWait = bestAccount"
| "shortestCooldown_loop (account # rest) now bestAccount shortestWait =
     (let wait = max 0 (orZero (cooldownUntil account) - now)
      in if (case shortestWait of None \<Rightarrow> True | Some s \<Rightarrow> wait < s)
         then shortestCooldown_loop rest now (Some account) (Some wait)
         else shortestCooldown_loop rest now bestAccount shortestWait)"

definition getAccountWithShortestCooldown :: "ProxyAccount list \<Rightarrow> int \<Rightarrow> ProxyAccount option" where
  "getAccountWithShortestCooldown accs now = shortestCooldown_loop accs now None None"

text \<open>
  The scan of \<open>getNextAccount\<close>. \<open>accountList[this.currentIndex]\<close> past the end of
  the snapshot is \<open>undefined\<close>; the cursor is advanced, and then
  \<open>isAccountAvailable\<close> reads \<open>account.autoRecoverAt\<close> of it and throws.
\<close>

function getNextAccount_loop ::
  "ProxyAccount list \<Rightarrow> int \<Rightarrow> nat \<Rightarrow> nat \<Rightarrow> AccountPool
     \<Rightarrow> (error + ProxyAccount option) \<times> AccountPool" where
  "getNextAccount_loop accountList now maxAttempts attempts p =
     (if attempts < maxAttempts then
        (let idx = currentIndex p;
             p1 = p\<lparr> currentIndex := (idx + 1) mod length accountList \<rparr>
         in if idx < length accountList then
              (let account = accountList ! idx;
                   r = isAccountAvailable p1 account now
               in if fst r then (Inr (Some account), snd r)
                  else getNextAccount_loop accountList now maxAttempts (attempts + 1) (snd r))
            else (Inl TypeError, p1))
      else (Inr (getAccountWithShortestCooldown accountList now), p))"
  by pat_completeness auto
termination
  by (relation "measure (\<lambda>(accountList, now, maxAttempts, attempts, p). maxAttempts - attempts)") auto

declare getNextAccount_loop.simps [simp del]

definition getNextAccount :: "AccountPool \<Rightarrow> int \<Rightarrow> (error + ProxyAccount option) \<times> AccountPool" where
  "getNextAccount p now =
     (let accountList = map snd (accounts p)
      in if length accountList = 0 then (Inr None, p)
         else getNextAccount_loop accountList now (length accountList) 0 p)"

text \<open>
  The \<open>for\<close> loop of \<open>getNextAvailableAccount\<close>: the predicate is only called for
  accounts other than the excluded one.
\<close>

fun getNextAvailableAccount_loop ::
  "ProxyAccount list \<Rightarrow> string \<Rightarrow> int \<Rightarrow> AccountPool \<Rightarrow> ProxyAccount option \<times> AccountPool" where
  "getNextAvailableAccount_loop [] excludeAccountId now p = (None, p)"
| "getNextAvailableAccount_loop (account # rest) excludeAccountId now p =
     (if accountId account \<noteq> excludeAccountId then
        (let r = isAccountAvailable p account now
         in if fst r then (Some account, snd r)
            else getNextAvailableAccount_loop rest excludeAccountId now (snd r))
      else getNextAvailableAccount_loop rest excludeAccountId now p)"

definition getNextAvailableAccount ::
  "AccountPool \<Rightarrow> string \<Rightarrow> int \<Rightarrow> ProxyAccount option \<times> AccountPool" where
  "getNextAvailableAccount p excludeAccountId now =
     (let accountList = map snd (accounts p)
      in if length accountList \<le> 1 then (None, p)
         else (case getNextAvailableAccount_loop accountList excludeAccountId now p of
                 (Some account, p') \<Rightarrow> (Some account, p')
               | (None, p') \<Rightarrow>
                   (getAccountWithShortestCooldown
                      (filter (\<lambda>a. accountId a \<noteq> excludeAccountId) accountList) now, p')))"

subsection \<open>Outcome reporting\<close>

text \<open>\<open>recordSuccess\<close> reads the clock twice: \<open>now\<close> for the account, \<open>now'\<close> for the statistics.\<close>

definition recordSuccess :: "AccountPool \<Rightarrow> int \<Rightarrow> int \<Rightarrow> string \<Rightarrow> int \<Rightarrow> AccountPool" where
  "recordSuccess p now now' k tokensUsed =
     (let p1 = (case map_of (accounts p) k of
                  None \<Rightarrow> p
                | Some account \<Rightarrow>
                    p\<lparr> accounts := AList.update k
                         (account\<lparr> requestCount := Some (orZero (requestCount account) + 1),
                                   errorCount := Some 0,
                                   lastUsed := Some now,
                                   isAvailable := Some True \<rparr>) (accounts p) \<rparr>)
      in (case map_of (accountStats p1) k of
            None \<Rightarrow> p1
          | Some stats \<Rightarrow>
              p1\<lparr> accountStats := AList.update k
                    (stats\<lparr> requests := requests stats + 1,
                            tokens := tokens stats + tokensUsed,
                            statsLastUsed := now' \<rparr>) (accountStats p1) \<rparr>))"

text \<open>
  The \<open>switch\<close> of \<open>recordError\<close> on the four locals
  \<open>(errorCount, cooldownUntil, autoRecoverAt, isAvailable)\<close>. The \<open>quota\<close> and \<open>auth\<close>
  branches, and the \<open>unknown\<close> branch once the count reaches the maximum, log the new
  deadline through \<open>new Date(deadline).toISOString()\<close>; the \<open>network\<close> and \<open>server\<close>
  branches log durations only.
\<close>

fun applyErrorType ::
  "AccountPoolConfig \<Rightarrow> int \<Rightarrow> ErrorType \<Rightarrow> int \<times> int \<times> int option \<times> bool
     \<Rightarrow> error + int \<times> int \<times> int option \<times> bool" where
  "applyErrorType cfg now Quota (ec, cu, ar, av) =
     (if isValidDate (now + quotaResetMs cfg)
      then Inr (ec, now + quotaResetMs cfg, ar, av) else Inl RangeError)"
| "applyErrorType cfg now Auth (ec, cu, ar, av) =
     (if isValidDate (now + autoRecoverMs cfg)
      then Inr (ec, cu, Some (now + autoRecoverMs cfg), False) else Inl RangeError)"
| "applyErrorType cfg now Network (ec, cu, ar, av) = Inr (ec, now + networkCooldownMs cfg, ar, av)"
| "applyErrorType cfg now Server (ec, cu, ar, av) = Inr (ec + 1, now + serverCooldownMs cfg, ar, av)"
| "applyErrorType cfg now Unknown (ec, cu, ar, av) =
     (if ec + 1 \<ge> maxErrorCount cfg
      then (if isValidDate (now + cooldownMs cfg)
            then Inr (ec + 1, now + cooldownMs cfg, ar, av) else Inl RangeError)
      else Inr (ec + 1, cu, ar, av))"

text \<open>
  \<open>recordError\<close> writes the account and the statistics after the \<open>switch\<close>: when a log
  line throws, nothing has been written and the pool is as before the call.
\<close>

definition recordError ::
  "AccountPool \<Rightarrow> int \<Rightarrow> string \<Rightarrow> ErrorType \<Rightarrow> (error + unit) \<times> AccountPool" where
  "recordError p now k errorType =
     (case map_of (accounts p) k of
        None \<Rightarrow> (Inr (), p)
      | Some account \<Rightarrow>
          (case applyErrorType (config p) now errorType
                  (orZero (errorCount account), orZero (cooldownUntil account),
                   autoRecoverAt account, isAvailable account \<noteq> Some False) of
             Inl e \<Rightarrow> (Inl e, p)
           | Inr (ec, cu, ar, av) \<Rightarrow>
               (let p1 = p\<lparr> accounts := AList.update k
                             (account\<lparr> errorCount := Some ec, cooldownUntil := Some cu,
                                       autoRecoverAt := ar, isAvailable := Some av,
                                       lastUsed := Some now \<rparr>) (accounts p) \<rparr>
                in (Inr (),
                    (case map_of (accountStats p1) k of
                       None \<Rightarrow> p1
                     | Some stats \<Rightarrow>
                         p1\<lparr> accountStats := AList.update k
                               (stats\<lparr> errors := errors stats + 1, statsLastUsed := now \<rparr>)
                               (accountStats p1) \<rparr>)))))"

definition markNeedsRefresh :: "AccountPool \<Rightarrow> int \<Rightarrow> string \<Rightarrow> AccountPool" where
  "markNeedsRefresh p now k =
     (case map_of (accounts p) k of
        None \<Rightarrow> p
      | Some account \<Rightarrow>
          p\<lparr> accounts := AList.update k
               (account\<lparr> isAvailable := Some False, autoRecoverAt := Some (now + 30000) \<rparr>)
               (accounts p) \<rparr>)"

subsection \<open>Resets\<close>

text \<open>
  \<open>reset\<close> and \<open>resetAllAccountStates\<close> walk the map and store a new record under each
  key they meet; no key is added, so the walk is a \<open>map\<close> over the entries.
\<close>

definition reset :: "AccountPool \<Rightarrow> AccountPool" where
  "reset p =
     p\<lparr> accounts := map (\<lambda>(k, account).
                (k, account\<lparr> isAvailable := Some True, errorCount := Some 0,
                             cooldownUntil := None \<rparr>)) (accounts p),
        currentIndex := 0 \<rparr>"

definition resetAccountState :: "AccountPool \<Rightarrow> string \<Rightarrow> bool \<times> AccountPool" where
  "resetAccountState p k =
     (case map_of (accounts p) k of
        None \<Rightarrow> (False, p)
      | Some account \<Rightarrow>
          (True, p\<lparr> accounts := AList.update k
                    (account\<lparr> isAvailable := Some True, errorCount := Some 0,
                              cooldownUntil := None, autoRecoverAt := None \<rparr>) (accounts p) \<rparr>))"

definition resetAllAccountStates :: "AccountPool \<Rightarrow> nat \<times> AccountPool" where
  "resetAllAccountStates p =
     (length (accounts p),
      p\<lparr> accounts := map (\<lambda>(k, account).
                 (k, account\<lparr> isAvailable := Some True, errorCount := Some 0,
                              cooldownUntil := None, autoRecoverAt := None \<rparr>)) (accounts p) \<rparr>)"

subsection \<open>Diagnostics\<close>

record AccountDiagnostics =
  diag_id :: string
  diag_email :: "string option"
  diag_isAvailable :: "bool option"
  diag_errorCount :: "int option"
  diag_cooldownUntil :: "int option"
  diag_autoRecoverAt :: "int option"
  diag_expiresAt :: "int option"
  isCurrentlyAvailable :: bool
  cooldownRemaining :: int
  autoRecoverRemaining :: int
  tokenExpiresIn :: "int option"

definition getAccountDiagnostics ::
  "AccountPool \<Rightarrow> string \<Rightarrow> int \<Rightarrow> AccountDiagnostics option \<times> AccountPool" where
  "getAccountDiagnostics p k now =
     (case map_of (accounts p) k of
        None \<Rightarrow> (None, p)
      | Some account \<Rightarrow>
          (let r = isAccountAvailable p account now
           in (Some \<lparr> diag_id = accountId account,
                      diag_email = email account,
                      diag_isAvailable = isAvailable account,
                      diag_errorCount = errorCount account,
                      diag_cooldownUntil = cooldownUntil account,
                      diag_autoRecoverAt = autoRecoverAt account,
                      diag_expiresAt = expiresAt account,
                      isCurrentlyAvailable = fst r,
                      cooldownRemaining =
                        (if truthy (cooldownUntil account)
                         then max 0 (orZero (cooldownUntil account) - now) else 0),
                      autoRecoverRemaining =
                        (if truthy (autoRecoverAt account)
                         then max 0 (orZero (autoRecoverAt account) - now) else 0),
                      tokenExpiresIn =
                        (if truthy (expiresAt account)
                         then Some (orZero (expiresAt account) - now) else None) \<rparr>,
               snd r)))"


text \<open>
  The getter \<open>availableCount\<close> walks \<open>this.accounts.values()\<close>, an iterator over the map
  itself and not over a snapshot: the walk is by position in the current list, and an entry
  that the predicate's auto-recovery appends is visited too.
\<close>

function availableCount_loop :: "int \<Rightarrow> nat \<Rightarrow> nat \<Rightarrow> AccountPool \<Rightarrow> nat \<times> AccountPool" where
  "availableCount_loop now i count p =
     (if i < length (accounts p) then
        (let r = isAccountAvailable p (snd (accounts p ! i)) now
         in availableCount_loop now (i + 1) (if fst r then count + 1 else count) (snd r))
      else (count, p))"
  by pat_completeness auto
termination
proof (relation "measure (\<lambda>(now, i, count, p).
    (length (accounts p) - i)
    + length (filter (\<lambda>a. truthy (autoRecoverAt a) \<and> orZero (autoRecoverAt a) \<le> now)
                (drop i (map snd (accounts p)))))")
  show "wf (measure (\<lambda>(now, i, count, p).
    (length (accounts p) - i)
    + length (filter (\<lambda>a. truthy (autoRecoverAt a) \<and> orZero (autoRecoverAt a) \<le> now)
                (drop i (map snd (accounts p))))))"
    by simp
next
  fix now :: int and i count :: nat and p :: AccountPool and x
  assume lt: "i < length (accounts p)"
    and x: "x = isAccountAvailable p (snd (accounts p ! i)) now"
  let ?a = "snd (accounts p ! i)"
  let ?R = "\<lambda>a. truthy (autoRecoverAt a) \<and> orZero (autoRecoverAt a) \<le> now"
  have upd_len: "length (AList.update k v al) \<le> Suc (length al)"
    for k :: string and v :: ProxyAccount and al
    by (induction al) auto
  have upd_filter: "length (filter ?R (drop j (map snd (AList.update k v al))))
      \<le> length (filter ?R (drop j (map snd al)))" if "\<not> ?R v"
    for k :: string and v :: ProxyAccount and al j
    using that
  proof (induction al arbitrary: j)
    case Nil
    then show ?case by (cases j) auto
  next
    case (Cons e al)
    from Cons.IH [OF Cons.prems, of 0] Cons.IH [OF Cons.prems, of "j - 1"] Cons.prems
    show ?case by (cases j) auto
  qed
  have drop_step: "length (filter ?R (drop (Suc i) (map snd (accounts p))))
      + (if ?R ?a then 1 else 0) = length (filter ?R (drop i (map snd (accounts p))))"
    using lt by (simp add: Cons_nth_drop_Suc [symmetric])
  show "((now, i + 1, if fst x then count + 1 else count, snd x), now, i, count, p)
      \<in> measure (\<lambda>(now, i, count, p).
          (length (accounts p) - i)
          + length (filter (\<lambda>a. truthy (autoRecoverAt a) \<and> orZero (autoRecoverAt a) \<le> now)
                      (drop i (map snd (accounts p)))))"
  proof (cases "?R ?a")
    case False
    then have "snd x = p" by (auto simp: x isAccountAvailable_def)
    with lt drop_step False show ?thesis by simp
  next
    case True
    then have acc: "accounts (snd x) = AList.update (accountId ?a) (recovered ?a) (accounts p)"
      by (simp add: x isAccountAvailable_def)
    have nr: "\<not> ?R (recovered ?a)" by (simp add: recovered_def truthy_def)
    have "length (accounts (snd x)) - Suc i \<le> length (accounts p) - i"
      using upd_len [of "accountId ?a" "recovered ?a" "accounts p"] by (simp add: acc)
    moreover have "length (filter ?R (drop (Suc i) (map snd (accounts (snd x)))))
        < length (filter ?R (drop i (map snd (accounts p))))"
      using upd_filter [OF nr, of "Suc i" "accountId ?a" "accounts p"] drop_step True
      by (simp add: acc)
    ultimately show ?thesis by simp
  qed
qed

declare availableCount_loop.simps [simp del]

definition availableCount :: "AccountPool \<Rightarrow> int \<Rightarrow> nat \<times> AccountPool" where
  "availableCount p now = availableCount_loop now 0 0 p"

subsection \<open>Notions used to state the properties\<close>

text \<open>
  The rank that \<open>getAccountWithShortestCooldown\<close> computes for an account:
  \<open>Math.max(0, (account.cooldownUntil || 0) - now)\<close>.
\<close>

definition waitOf :: "ProxyAccount \<Rightarrow> int \<Rightarrow> int" where
  "waitOf a now = max 0 (orZero (cooldownUntil a) - now)"

text \<open>
  Every account of the pool passes the availability predicate at \<open>now\<close> and none has an
  auto-recover deadline, so the predicate does not write to the pool.
\<close>

definition allAvailable :: "AccountPool \<Rightarrow> int \<Rightarrow> bool" where
  "allAvailable p now =
     list_all (\<lambda>a. \<not> truthy (autoRecoverAt a) \<and> fst (isAccountAvailable p a now))
       (map snd (accounts p))"

text \<open>Consecutive calls of \<open>getNextAccount\<close>, one per clock value, with their results in order.\<close>

fun selectMany :: "AccountPool \<Rightarrow> int list \<Rightarrow> (error + ProxyAccount option) list \<times> AccountPool" where
  "selectMany p [] = ([], p)"
| "selectMany p (now # ts) =
     (let r = getNextAccount p now; rs = selectMany (snd r) ts in (fst r # fst rs, snd rs))"

text \<open>
  The public methods of the class as values, each with its arguments and the clock values
  it reads. \<open>perform p op\<close> is the pool after the call, also when the call throws.
\<close>

datatype operation =
    AddAccount ProxyAccount
  | RemoveAccount string
  | UpdateAccount string ProxyAccountUpdates
  | GetNextAccount int
  | GetAccount string
  | GetNextAvailableAccount string int
  | GetAllAccounts
  | RecordSuccess int int string int
  | RecordError int string ErrorType
  | MarkNeedsRefresh int string
  | GetStats
  | Reset
  | Clear
  | Size
  | AvailableCount int
  | GetAccountDiagnostics string int
  | ResetAccountState string
  | ResetAllAccountStates

fun perform :: "AccountPool \<Rightarrow> operation \<Rightarrow> AccountPool" where
  "perform p (AddAccount account) = addAccount p account"
| "perform p (RemoveAccount k) = removeAccount p k"
| "perform p (UpdateAccount k updates) = updateAccount p k updates"
| "perform p (GetNextAccount now) = snd (getNextAccount p now)"
| "perform p (GetAccount k) = p"
| "perform p (GetNextAvailableAccount excludeAccountId now) =
     snd (getNextAvailableAccount p excludeAccountId now)"
| "perform p GetAllAccounts = p"
| "perform p (RecordSuccess now now' k tokensUsed) = recordSuccess p now now' k tokensUsed"
| "perform p (RecordError now k errorType) = snd (recordError p now k errorType)"
| "perform p (MarkNeedsRefresh now k) = markNeedsRefresh p now k"
| "perform p GetStats = p"
| "perform p Reset = reset p"
| "perform p Clear = clear p"
| "perform p Size = p"
| "perform p (AvailableCount now) = snd (availableCount p now)"
| "perform p (GetAccountDiagnostics k now) = snd (getAccountDiagnostics p k now)"
| "perform p (ResetAccountState k) = snd (resetAccountState p k)"
| "perform p ResetAllAccountStates = snd (resetAllAccountStates p)"

subsection \<open>Example pools\<close>

text \<open>
  \<open>acct k\<close> is a credential as a caller hands it to \<open>addAccount\<close>, \<open>registered k\<close> the
  record that \<open>addAccount\<close> stores for it. The pools below are built with the operations
  of the class, from the default configuration; \<open>only_errorCount n\<close> is the argument
  \<open>{ errorCount: n }\<close> of \<open>updateAccount\<close>.
\<close>

definition acct :: "string \<Rightarrow> ProxyAccount" where
  "acct k = \<lparr> accountId = k, email = None, isAvailable = None, requestCount = None,
     errorCount = None, lastUsed = None, cooldownUntil = None, autoRecoverAt = None,
     expiresAt = None \<rparr>"

definition registered :: "string \<Rightarrow> ProxyAccount" where
  "registered k = \<lparr> accountId = k, email = None, isAvailable = Some True, requestCount = Some 0,
     errorCount = Some 0, lastUsed = Some 0, cooldownUntil = None, autoRecoverAt = None,
     expiresAt = None \<rparr>"

definition acct_expiring :: "int \<Rightarrow> ProxyAccount" where
  "acct_expiring e = (registered ''a'')\<lparr> expiresAt := Some e \<rparr>"

definition acct_a_quota :: ProxyAccount where
  "acct_a_quota = (registered ''a'')\<lparr> errorCount := Some 0, cooldownUntil := Some 3601000,
       autoRecoverAt := None, isAvailable := Some True, lastUsed := Some 1000 \<rparr>"

definition acct_a_auth :: ProxyAccount where
  "acct_a_auth = (registered ''a'')\<lparr> errorCount := Some 0, cooldownUntil := Some 0,
       autoRecoverAt := Some 301000, isAvailable := Some False, lastUsed := Some 1000 \<rparr>"

definition pool_ab :: AccountPool where
  "pool_ab = addAccount (addAccount (newAccountPool DEFAULT_CONFIG) (acct ''a'')) (acct ''b'')"

definition pool_abc :: AccountPool where
  "pool_abc = addAccount pool_ab (acct ''c'')"


definition pool_auth :: AccountPool where
  "pool_auth = snd (recordError pool_ab 1000 ''a'' Auth)"

definition pool_auth_quota :: AccountPool where
  "pool_auth_quota = snd (recordError pool_auth 1000 ''b'' Quota)"

definition pool_quota :: AccountPool where
  "pool_quota = snd (recordError pool_ab 1000 ''a'' Quota)"

definition pool_server :: AccountPool where
  "pool_server = snd (recordError pool_ab 1000 ''a'' Server)"

definition acct_a_server :: ProxyAccount where
  "acct_a_server = (registered ''a'')\<lparr> errorCount := Some 1, cooldownUntil := Some 31000,
       autoRecoverAt := None, isAvailable := Some True, lastUsed := Some 1000 \<rparr>"

definition pool_quota_auth :: AccountPool where
  "pool_quota_auth = snd (recordError pool_quota 1000 ''a'' Auth)"

definition acct_a_quota_auth :: ProxyAccount where
  "acct_a_quota_auth = (registered ''a'')\<lparr> errorCount := Some 0, cooldownUntil := Some 3601000,
       autoRecoverAt := Some 301000, isAvailable := Some False, lastUsed := Some 1000 \<rparr>"

definition pool_quota_auth_success :: AccountPool where
  "pool_quota_auth_success = recordSuccess pool_quota_auth 2000 2000 ''a'' 0"

definition acct_a_quota_auth_success :: ProxyAccount where
  "acct_a_quota_auth_success = (registered ''a'')\<lparr> requestCount := Some 1, errorCount := Some 0,
       cooldownUntil := Some 3601000, autoRecoverAt := Some 301000, isAvailable := Some True,
       lastUsed := Some 2000 \<rparr>"

definition pool_stale_auth :: AccountPool where
  "pool_stale_auth =
     removeAccount (snd (recordError (snd (getNextAccount pool_ab 1000)) 1000 ''a'' Auth)) ''b''"

definition only_errorCount :: "int \<Rightarrow> ProxyAccountUpdates" where
  "only_errorCount n =
     \<lparr> upd_accountId = None, upd_email = None, upd_isAvailable = None,
       upd_requestCount = None, upd_errorCount = Some (Some n), upd_lastUsed = None,
       upd_cooldownUntil = None, upd_autoRecoverAt = None, upd_expiresAt = None \<rparr>"

definition pool_stale2 :: AccountPool where
  "pool_stale2 = removeAccount (snd (getNextAccount pool_ab 1000)) ''b''"

definition pool_stale3 :: AccountPool where
  "pool_stale3 =
     removeAccount (snd (getNextAccount (snd (getNextAccount pool_abc 1000)) 2000)) ''c''"


section \<open>Properties of the operations\<close>

subsection \<open>Association lists as maps\<close>

lemma map_of_update_same: "map_of (AList.update k v al) k = Some v"
  by (simp add: update_conv')

lemma map_of_update_other: "k' \<noteq> k \<Longrightarrow> map_of (AList.update k v al) k' = map_of al k'"
  by (simp add: update_conv')

lemma map_fst_update_present:
  "map_of al k = Some v \<Longrightarrow> map fst (AList.update k v' al) = map fst al"
  by (induction al) (auto split: if_splits)

lemma length_AList_update: "length al \<le> length (AList.update k v al)"
  by (induction al) auto

subsection \<open>The availability predicate\<close>

lemma isAccountAvailable_unavailable_same:
  "\<not> fst (isAccountAvailable p a now) \<Longrightarrow> snd (isAccountAvailable p a now) = p"
  by (auto simp: isAccountAvailable_def split: if_splits)

lemma isAccountAvailable_fst_config:
  "config p = config q \<Longrightarrow> fst (isAccountAvailable p a now) = fst (isAccountAvailable q a now)"
  by (simp add: isAccountAvailable_def)

lemma isAccountAvailable_no_deadline_same:
  "\<not> truthy (autoRecoverAt a) \<Longrightarrow> snd (isAccountAvailable p a now) = p"
  by (simp add: isAccountAvailable_def)

lemma isAccountAvailable_frame:
  "currentIndex (snd (isAccountAvailable p a now)) = currentIndex p"
  "accountStats (snd (isAccountAvailable p a now)) = accountStats p"
  "config (snd (isAccountAvailable p a now)) = config p"
  by (simp_all add: isAccountAvailable_def)

lemma isAccountAvailable_accounts:
  "accounts (snd (isAccountAvailable p a now)) =
     (if truthy (autoRecoverAt a) \<and> orZero (autoRecoverAt a) \<le> now
      then AList.update (accountId a) (recovered a) (accounts p) else accounts p)"
  by (simp add: isAccountAvailable_def)

lemma isAccountAvailable_cooling:
  "truthy (cooldownUntil a) \<Longrightarrow> t < orZero (cooldownUntil a) \<Longrightarrow>
   \<not> (truthy (autoRecoverAt a) \<and> orZero (autoRecoverAt a) \<le> t) \<Longrightarrow>
   isAccountAvailable p a t = (False, p)"
  by (simp add: isAccountAvailable_def)


lemma isAccountAvailable_pending:
  "truthy (autoRecoverAt a) \<Longrightarrow> t < orZero (autoRecoverAt a) \<Longrightarrow>
   isAccountAvailable p a t = (False, p)"
  by (simp add: isAccountAvailable_def)

lemma isAccountAvailable_recovers:
  "truthy (autoRecoverAt a) \<Longrightarrow> orZero (autoRecoverAt a) \<le> t \<Longrightarrow>
   isAccountAvailable p a t =
     (True, p\<lparr> accounts := AList.update (accountId a) (recovered a) (accounts p) \<rparr>)"
  by (simp add: isAccountAvailable_def)

lemma isAccountAvailable_errorCount:
  "map_of (accounts (snd (isAccountAvailable p a now))) k' = Some b \<Longrightarrow>
   map_of (accounts p) k' = Some b \<or> errorCount b = Some 0"
  by (auto simp: isAccountAvailable_accounts update_conv' recovered_def split: if_splits)

subsection \<open>The shortest-cooldown fallback\<close>

text \<open>
  On a non-empty list the fallback returns an account of the list with the least wait, and
  when some account has wait \<open>0\<close> it returns the first such account.
\<close>

lemma shortestCooldown_loop_zero:
  "shortestCooldown_loop accs now best (Some 0) = best"
  by (induction accs) (simp_all add: Let_def)

lemma shortestCooldown_loop_find_zero:
  "\<exists>x \<in> set accs. waitOf x now = 0 \<Longrightarrow> (case sw of None \<Rightarrow> True | Some s \<Rightarrow> 0 < s) \<Longrightarrow>
   shortestCooldown_loop accs now best sw = find (\<lambda>a. waitOf a now = 0) accs"
proof (induction accs arbitrary: best sw)
  case Nil
  then show ?case by simp
next
  case (Cons a accs)
  show ?case
  proof (cases "waitOf a now = 0")
    case True
    then show ?thesis using Cons.prems(2)
      by (auto simp: waitOf_def Let_def shortestCooldown_loop_zero split: option.splits)
  next
    case False
    then have pos: "0 < waitOf a now" by (simp add: waitOf_def)
    from False Cons.prems(1) have ex: "\<exists>x \<in> set accs. waitOf x now = 0" by auto
    have "shortestCooldown_loop (a # accs) now best sw = find (\<lambda>a. waitOf a now = 0) accs"
    proof (cases "case sw of None \<Rightarrow> True | Some s \<Rightarrow> waitOf a now < s")
      case True
      then have "shortestCooldown_loop (a # accs) now best sw =
                 shortestCooldown_loop accs now (Some a) (Some (waitOf a now))"
        by (cases sw) (auto simp: waitOf_def Let_def)
      also have "\<dots> = find (\<lambda>a. waitOf a now = 0) accs"
        using Cons.IH [OF ex, of "Some (waitOf a now)" "Some a"] pos by simp
      finally show ?thesis .
    next
      case nt: False
      then have "shortestCooldown_loop (a # accs) now best sw =
                 shortestCooldown_loop accs now best sw"
        by (cases sw) (auto simp: waitOf_def Let_def)
      also have "\<dots> = find (\<lambda>a. waitOf a now = 0) accs"
        using Cons.IH [OF ex Cons.prems(2)] .
      finally show ?thesis .
    qed
    with False show ?thesis by simp
  qed
qed

lemma shortestCooldown_loop_some:
  "best \<noteq> None \<or> (sw = None \<and> accs \<noteq> []) \<Longrightarrow> shortestCooldown_loop accs now best sw \<noteq> None"
  by (induction accs arbitrary: best sw) (auto simp: Let_def)

lemma shortestCooldown_loop_mem:
  "shortestCooldown_loop accs now best sw = Some r \<Longrightarrow> r \<in> set accs \<or> best = Some r"
  by (induction accs arbitrary: best sw) (auto simp: Let_def split: if_splits)

lemma shortestCooldown_loop_min:
  "shortestCooldown_loop accs now best sw = Some r \<Longrightarrow>
   (\<forall>b. best = Some b \<longrightarrow> sw = Some (waitOf b now)) \<Longrightarrow> (best = None \<longrightarrow> sw = None) \<Longrightarrow>
   (\<forall>x \<in> set accs. waitOf r now \<le> waitOf x now) \<and> (\<forall>b. best = Some b \<longrightarrow> waitOf r now \<le> waitOf b now)"
proof (induction accs arbitrary: best sw)
  case Nil
  then show ?case by simp
next
  case (Cons a accs)
  show ?case
  proof (cases "case sw of None \<Rightarrow> True | Some s \<Rightarrow> waitOf a now < s")
    case True
    with Cons.prems(1) have "shortestCooldown_loop accs now (Some a) (Some (waitOf a now)) = Some r"
      by (cases sw) (auto simp: waitOf_def Let_def)
    from Cons.IH [OF this] have "(\<forall>x\<in>set accs. waitOf r now \<le> waitOf x now) \<and> waitOf r now \<le> waitOf a now"
      by simp
    with True Cons.prems(2,3) show ?thesis by (auto split: option.splits)
  next
    case False
    with Cons.prems(1) have "shortestCooldown_loop accs now best sw = Some r"
      by (cases sw) (auto simp: waitOf_def Let_def)
    from Cons.IH [OF this Cons.prems(2,3)]
    have ih: "(\<forall>x\<in>set accs. waitOf r now \<le> waitOf x now) \<and> (\<forall>b. best = Some b \<longrightarrow> waitOf r now \<le> waitOf b now)" .
    from False Cons.prems(2,3) obtain b where b: "best = Some b" "sw = Some (waitOf b now)" "waitOf b now \<le> waitOf a now"
      by (cases best; cases sw) auto
    with ih show ?thesis by auto
  qed
qed

lemma getAccountWithShortestCooldown_some:
  "accs \<noteq> [] \<Longrightarrow> \<exists>r. getAccountWithShortestCooldown accs now = Some r \<and> r \<in> set accs
      \<and> (\<forall>x \<in> set accs. waitOf r now \<le> waitOf x now)"
proof -
  assume ne: "accs \<noteq> []"
  then obtain r where r: "shortestCooldown_loop accs now None None = Some r"
    using shortestCooldown_loop_some [of None None accs now] by auto
  from shortestCooldown_loop_mem [OF r] have "r \<in> set accs" by simp
  moreover from shortestCooldown_loop_min [OF r] have "\<forall>x \<in> set accs. waitOf r now \<le> waitOf x now" by simp
  ultimately show ?thesis using r by (simp add: getAccountWithShortestCooldown_def)
qed

lemma getAccountWithShortestCooldown_find_zero:
  "\<exists>x \<in> set accs. waitOf x now = 0 \<Longrightarrow>
   getAccountWithShortestCooldown accs now = find (\<lambda>a. waitOf a now = 0) accs"
  by (simp add: getAccountWithShortestCooldown_def shortestCooldown_loop_find_zero)

subsection \<open>The scan of \<open>getNextAccount\<close>\<close>

text \<open>
  With the cursor inside the snapshot the scan returns an account of the pool and leaves the
  cursor inside; on an empty pool the result is \<open>null\<close>; a cursor at or past the end of a
  non-empty snapshot makes the call throw. \<open>addAccount\<close> never shortens the list, so only a
  removal can move the end of the list below the cursor.
\<close>

lemma getNextAccount_loop_returns:
  "accountList \<noteq> [] \<Longrightarrow> currentIndex p < length accountList \<Longrightarrow>
   \<exists>a. fst (getNextAccount_loop accountList now maxAttempts attempts p) = Inr (Some a)
       \<and> a \<in> set accountList"
proof (induction accountList now maxAttempts attempts p rule: getNextAccount_loop.induct)
  case (1 accountList now maxAttempts attempts p)
  let ?idx = "currentIndex p"
  let ?p1 = "p\<lparr> currentIndex := (?idx + 1) mod length accountList \<rparr>"
  let ?r = "isAccountAvailable ?p1 (accountList ! ?idx) now"
  show ?case
  proof (cases "attempts < maxAttempts")
    case False
    with getAccountWithShortestCooldown_some [OF "1.prems"(1), of now] show ?thesis
      by (subst getNextAccount_loop.simps) auto
  next
    case lt: True
    show ?thesis
    proof (cases "fst ?r")
      case True
      with lt "1.prems" show ?thesis
        by (subst getNextAccount_loop.simps) (simp add: Let_def)
    next
      case False
      have "currentIndex (snd ?r) < length accountList"
        using "1.prems" by (simp add: isAccountAvailable_frame)
      from "1.IH" [OF lt refl refl "1.prems"(2) refl refl False "1.prems"(1) this]
      show ?thesis using lt False "1.prems"
        by (subst getNextAccount_loop.simps) (simp add: Let_def)
    qed
  qed
qed

lemma getNextAccount_returns:
  "accounts p \<noteq> [] \<Longrightarrow> currentIndex p < length (accounts p) \<Longrightarrow>
   \<exists>a. fst (getNextAccount p now) = Inr (Some a) \<and> a \<in> snd ` set (accounts p)"
  using getNextAccount_loop_returns [of "map snd (accounts p)" p now "length (accounts p)" 0]
  by (simp add: getNextAccount_def)

lemma getNextAccount_empty:
  "accounts p = [] \<Longrightarrow> getNextAccount p now = (Inr None, p)"
  by (simp add: getNextAccount_def)

lemma getNextAccount_loop_not_null:
  "accountList \<noteq> [] \<Longrightarrow>
   fst (getNextAccount_loop accountList now maxAttempts attempts p) \<noteq> Inr None"
proof (induction accountList now maxAttempts attempts p rule: getNextAccount_loop.induct)
  case (1 accountList now maxAttempts attempts p)
  show ?case
    using "1.IH" "1.prems" getAccountWithShortestCooldown_some [OF "1.prems"(1), of now]
    by (subst getNextAccount_loop.simps) (auto simp: Let_def)
qed

lemma getNextAccount_stale_cursor:
  "accounts p \<noteq> [] \<Longrightarrow> length (accounts p) \<le> currentIndex p \<Longrightarrow>
   getNextAccount p now =
     (Inl TypeError, p\<lparr> currentIndex := (currentIndex p + 1) mod length (accounts p) \<rparr>)"
  by (simp add: getNextAccount_def, subst getNextAccount_loop.simps) (simp add: Let_def)

lemma getNextAccount_loop_cursor:
  "accountList \<noteq> [] \<Longrightarrow>
   currentIndex (snd (getNextAccount_loop accountList now maxAttempts attempts p)) < length accountList
     \<or> (attempts \<ge> maxAttempts \<and> snd (getNextAccount_loop accountList now maxAttempts attempts p) = p)"
proof (induction accountList now maxAttempts attempts p rule: getNextAccount_loop.induct)
  case (1 accountList now maxAttempts attempts p)
  show ?case
  proof (cases "attempts < maxAttempts")
    case False
    then show ?thesis by (subst (1 2) getNextAccount_loop.simps) simp
  next
    case lt: True
    let ?idx = "currentIndex p"
    let ?p1 = "p\<lparr> currentIndex := (?idx + 1) mod length accountList \<rparr>"
    let ?r = "isAccountAvailable ?p1 (accountList ! ?idx) now"
    have c1: "currentIndex (snd ?r) < length accountList"
      using "1.prems" by (simp add: isAccountAvailable_frame)
    show ?thesis
    proof (cases "?idx < length accountList")
      case False
      with lt "1.prems" show ?thesis by (subst getNextAccount_loop.simps) (simp add: Let_def)
    next
      case inr: True
      show ?thesis
      proof (cases "fst ?r")
        case True
        with lt inr c1 show ?thesis by (subst getNextAccount_loop.simps) (simp add: Let_def)
      next
        case False
        from "1.IH" [OF lt refl refl inr refl refl False "1.prems"(1)] c1
        have "currentIndex (snd (getNextAccount_loop accountList now maxAttempts (attempts + 1) (snd ?r))) < length accountList"
          by auto
        with lt inr False show ?thesis by (subst getNextAccount_loop.simps) (simp add: Let_def)
      qed
    qed
  qed
qed

lemma getNextAccount_cursor_in_range:
  "accounts p \<noteq> [] \<Longrightarrow> currentIndex (snd (getNextAccount p now)) < length (accounts p)"
  using getNextAccount_loop_cursor [of "map snd (accounts p)" now "length (accounts p)" 0 p]
  by (auto simp: getNextAccount_def)

lemma addAccount_length:
  "length (accounts p) \<le> length (accounts (addAccount p account))"
  by (simp add: addAccount_def length_AList_update)

lemma getNextAccount_loop_fallback:
  "accountList \<noteq> [] \<Longrightarrow> currentIndex p < length accountList \<Longrightarrow>
   \<forall>a \<in> set accountList. \<not> fst (isAccountAvailable p a now) \<Longrightarrow>
   getNextAccount_loop accountList now maxAttempts attempts p =
     (Inr (getAccountWithShortestCooldown accountList now),
      p\<lparr> currentIndex := (currentIndex p + (maxAttempts - attempts)) mod length accountList \<rparr>)"
proof (induction accountList now maxAttempts attempts p rule: getNextAccount_loop.induct)
  case (1 accountList now maxAttempts attempts p)
  let ?idx = "currentIndex p"
  let ?p1 = "p\<lparr> currentIndex := (?idx + 1) mod length accountList \<rparr>"
  let ?r = "isAccountAvailable ?p1 (accountList ! ?idx) now"
  show ?case
  proof (cases "attempts < maxAttempts")
    case False
    with "1.prems" show ?thesis by (subst getNextAccount_loop.simps) simp
  next
    case lt: True
    have mem: "accountList ! ?idx \<in> set accountList" using "1.prems"(2) by simp
    have nf: "\<not> fst ?r"
      using "1.prems"(3) mem isAccountAvailable_fst_config [of ?p1 p "accountList ! ?idx" now] by simp
    then have same: "snd ?r = ?p1" by (rule isAccountAvailable_unavailable_same)
    have c1: "currentIndex (snd ?r) < length accountList"
      using "1.prems" by (simp add: isAccountAvailable_frame)
    have all1: "\<forall>a \<in> set accountList. \<not> fst (isAccountAvailable (snd ?r) a now)"
      unfolding same using "1.prems"(3) isAccountAvailable_fst_config [of ?p1 p _ now] by simp
    have "getNextAccount_loop accountList now maxAttempts attempts p =
          getNextAccount_loop accountList now maxAttempts (attempts + 1) (snd ?r)"
      using lt nf "1.prems"(2) by (subst getNextAccount_loop.simps) (simp add: Let_def)
    also have "\<dots> = (Inr (getAccountWithShortestCooldown accountList now),
      (snd ?r)\<lparr> currentIndex := (currentIndex (snd ?r) + (maxAttempts - (attempts + 1))) mod length accountList \<rparr>)"
      by (rule "1.IH" [OF lt refl refl "1.prems"(2) refl refl nf "1.prems"(1) c1 all1])
    also have "(snd ?r)\<lparr> currentIndex := (currentIndex (snd ?r) + (maxAttempts - (attempts + 1))) mod length accountList \<rparr>
        = p\<lparr> currentIndex := (currentIndex p + (maxAttempts - attempts)) mod length accountList \<rparr>"
    proof -
      have "((?idx + 1) mod length accountList + (maxAttempts - (attempts + 1))) mod length accountList
            = (?idx + 1 + (maxAttempts - (attempts + 1))) mod length accountList"
        by (simp add: mod_add_left_eq)
      also have "?idx + 1 + (maxAttempts - (attempts + 1)) = ?idx + (maxAttempts - attempts)"
        using lt by simp
      finally show ?thesis unfolding same by simp
    qed
    finally show ?thesis .
  qed
qed

lemma getNextAccount_fallback:
  assumes "accounts p \<noteq> []" "currentIndex p < length (accounts p)"
    and "\<forall>a \<in> snd ` set (accounts p). \<not> fst (isAccountAvailable p a now)"
  shows "getNextAccount p now = (Inr (getAccountWithShortestCooldown (map snd (accounts p)) now), p)"
proof -
  have "getNextAccount p now =
        (Inr (getAccountWithShortestCooldown (map snd (accounts p)) now),
         p\<lparr> currentIndex := (currentIndex p + (length (accounts p) - 0)) mod length (accounts p) \<rparr>)"
    using assms
      getNextAccount_loop_fallback [of "map snd (accounts p)" p now "length (accounts p)" 0]
    by (simp add: getNextAccount_def)
  moreover have "(currentIndex p + (length (accounts p) - 0)) mod length (accounts p) = currentIndex p"
    using assms(2) by simp
  ultimately show ?thesis by simp
qed

lemma getNextAccount_available_at_cursor:
  assumes c: "currentIndex p < length (accounts p)"
    and nd: "\<not> truthy (autoRecoverAt (map snd (accounts p) ! currentIndex p))"
    and av: "fst (isAccountAvailable p (map snd (accounts p) ! currentIndex p) now)"
  shows "getNextAccount p now =
           (Inr (Some (map snd (accounts p) ! currentIndex p)),
            p\<lparr> currentIndex := (currentIndex p + 1) mod length (accounts p) \<rparr>)"
proof -
  let ?al = "map snd (accounts p)"
  let ?p1 = "p\<lparr> currentIndex := (currentIndex p + 1) mod length ?al \<rparr>"
  have f: "fst (isAccountAvailable ?p1 (?al ! currentIndex p) now)"
    using av isAccountAvailable_fst_config [of ?p1 p] by simp
  have s: "snd (isAccountAvailable ?p1 (?al ! currentIndex p) now) = ?p1"
    by (rule isAccountAvailable_no_deadline_same [OF nd])
  have ne: "accounts p \<noteq> []" using c by auto
  have "getNextAccount_loop ?al now (length ?al) 0 p = (Inr (Some (?al ! currentIndex p)), ?p1)"
    using c f s ne by (subst getNextAccount_loop.simps) (simp add: Let_def)
  with ne show ?thesis by (simp add: getNextAccount_def)
qed

lemma allAvailable_cursor:
  "accounts (p\<lparr> currentIndex := c \<rparr>) = accounts p"
  "allAvailable (p\<lparr> currentIndex := c \<rparr>) t = allAvailable p t"
  using isAccountAvailable_fst_config [of "p\<lparr> currentIndex := c \<rparr>" p]
  by (simp_all add: allAvailable_def)

lemma selectMany_round_robin:
  assumes "currentIndex p < length (accounts p)"
    and "\<forall>t \<in> set ts. allAvailable p t"
  shows "selectMany p ts =
     (map (\<lambda>i. Inr (Some (map snd (accounts p) ! ((currentIndex p + i) mod length (accounts p)))))
        [0..<length ts],
      p\<lparr> currentIndex := (currentIndex p + length ts) mod length (accounts p) \<rparr>)"
  using assms
proof (induction ts arbitrary: p)
  case Nil
  then show ?case by simp
next
  case (Cons now ts)
  let ?al = "map snd (accounts p)"
  let ?N = "length (accounts p)"
  let ?c = "currentIndex p"
  let ?p1 = "p\<lparr> currentIndex := (?c + 1) mod ?N \<rparr>"
  have here: "allAvailable p now" using Cons.prems(2) by simp
  have mem: "?al ! ?c \<in> set ?al" using Cons.prems(1) by simp
  from here mem have nd: "\<not> truthy (autoRecoverAt (?al ! ?c))"
    and av: "fst (isAccountAvailable p (?al ! ?c) now)"
    unfolding allAvailable_def list_all_iff by blast+
  have step: "getNextAccount p now = (Inr (Some (?al ! ?c)), ?p1)"
    by (rule getNextAccount_available_at_cursor [OF Cons.prems(1) nd av])
  have pos: "0 < ?N" using Cons.prems(1) by auto
  have c1: "currentIndex ?p1 < length (accounts ?p1)" using pos by simp
  have av1: "\<forall>t \<in> set ts. allAvailable ?p1 t"
    using Cons.prems(2) by (simp add: allAvailable_cursor)
  have ih: "selectMany ?p1 ts =
     (map (\<lambda>i. Inr (Some (?al ! (((?c + 1) mod ?N + i) mod ?N)))) [0..<length ts],
      ?p1\<lparr> currentIndex := ((?c + 1) mod ?N + length ts) mod ?N \<rparr>)"
    using Cons.IH [OF c1 av1] by simp
  have idx: "(Suc ?c mod ?N + i) mod ?N = Suc (?c + i) mod ?N" for i
    by (metis add_Suc mod_add_left_eq)
  have "selectMany p (now # ts) =
     (Inr (Some (?al ! ?c)) # map (\<lambda>i. Inr (Some (?al ! ((?c + Suc i) mod ?N)))) [0..<length ts],
      p\<lparr> currentIndex := (?c + Suc (length ts)) mod ?N \<rparr>)"
    using step ih Cons.prems(1) by (simp add: idx)
  moreover have "map (\<lambda>i. Inr (Some (?al ! ((?c + i) mod ?N)))) [0..<length (now # ts)]
      = (Inr (Some (?al ! ?c)) :: error + ProxyAccount option)
          # map (\<lambda>i. Inr (Some (?al ! ((?c + Suc i) mod ?N)))) [0..<length ts]"
    using Cons.prems(1) by (simp add: map_upt_Suc del: upt_Suc)
  ultimately show ?case by simp
qed

lemma rotate_as_map:
  "xs \<noteq> [] \<Longrightarrow> rotate c xs = map (\<lambda>i. xs ! ((c + i) mod length xs)) [0..<length xs]"
  by (rule nth_equalityI) (simp_all add: nth_rotate)

lemma getNextAccount_loop_errorCount:
  "map_of (accounts (snd (getNextAccount_loop accountList now maxAttempts attempts p))) k' = Some b \<Longrightarrow>
   map_of (accounts p) k' = Some b \<or> errorCount b = Some 0"
proof (induction accountList now maxAttempts attempts p rule: getNextAccount_loop.induct)
  case (1 accountList now maxAttempts attempts p)
  let ?idx = "currentIndex p"
  let ?p1 = "p\<lparr> currentIndex := (?idx + 1) mod length accountList \<rparr>"
  let ?r = "isAccountAvailable ?p1 (accountList ! ?idx) now"
  show ?case
  proof (cases "attempts < maxAttempts \<and> ?idx < length accountList")
    case False
    with "1.prems" show ?thesis
      by (subst (asm) getNextAccount_loop.simps) (auto simp: Let_def split: if_splits)
  next
    case t: True
    show ?thesis
    proof (cases "fst ?r")
      case True
      with t "1.prems" have "map_of (accounts (snd ?r)) k' = Some b"
        by (subst (asm) getNextAccount_loop.simps) (simp add: Let_def)
      from isAccountAvailable_errorCount [OF this] show ?thesis by simp
    next
      case False
      then have same: "snd ?r = ?p1" by (rule isAccountAvailable_unavailable_same)
      from t False "1.prems"
      have "map_of (accounts (snd (getNextAccount_loop accountList now maxAttempts (attempts + 1) (snd ?r)))) k' = Some b"
        by (subst (asm) getNextAccount_loop.simps) (simp add: Let_def)
      from "1.IH" [OF _ refl refl _ refl refl False this] t
      have "map_of (accounts (snd ?r)) k' = Some b \<or> errorCount b = Some 0" by simp
      then show ?thesis unfolding same by simp
    qed
  qed
qed

lemma getNextAccount_errorCount:
  "map_of (accounts (snd (getNextAccount p now))) k' = Some b \<Longrightarrow>
   map_of (accounts p) k' = Some b \<or> errorCount b = Some 0"
  using getNextAccount_loop_errorCount [of "map snd (accounts p)" now "length (accounts p)" 0 p k' b]
  by (auto simp: getNextAccount_def Let_def split: if_splits)

subsection \<open>The exclusion variant\<close>

text \<open>
  \<open>getNextAvailableAccount\<close> returns \<open>null\<close> on a pool of at most one account, and an
  account other than the excluded one on a pool of two or more accounts with distinct ids.
\<close>

lemma getNextAvailableAccount_loop_mem:
  "fst (getNextAvailableAccount_loop accs ex now p) = Some r \<Longrightarrow> r \<in> set accs \<and> accountId r \<noteq> ex"
  by (induction accs arbitrary: p) (auto simp: Let_def split: if_splits)

lemma filter_other_nonempty:
  "distinct (map f xs) \<Longrightarrow> 2 \<le> length xs \<Longrightarrow> filter (\<lambda>a. f a \<noteq> ex) xs \<noteq> []"
proof -
  assume d: "distinct (map f xs)" and l: "2 \<le> length xs"
  then obtain a b rest where xs: "xs = a # b # rest"
    by (cases xs; cases "tl xs") auto
  with d have "f a \<noteq> f b" by auto
  then have "f a \<noteq> ex \<or> f b \<noteq> ex" by auto
  with xs show ?thesis by auto
qed

lemma getNextAvailableAccount_few:
  "length (accounts p) \<le> 1 \<Longrightarrow> getNextAvailableAccount p ex now = (None, p)"
  by (simp add: getNextAvailableAccount_def)

lemma getNextAvailableAccount_some:
  assumes d: "distinct (map (accountId \<circ> snd) (accounts p))" and l: "2 \<le> length (accounts p)"
  shows "\<exists>r. fst (getNextAvailableAccount p ex now) = Some r \<and> r \<in> snd ` set (accounts p)
            \<and> accountId r \<noteq> ex"
proof -
  let ?al = "map snd (accounts p)"
  let ?lp = "getNextAvailableAccount_loop ?al ex now p"
  show ?thesis
  proof (cases "fst ?lp")
    case (Some r)
    from getNextAvailableAccount_loop_mem [OF Some] have "r \<in> set ?al \<and> accountId r \<noteq> ex" .
    moreover have "fst (getNextAvailableAccount p ex now) = Some r"
      using l Some by (auto simp: getNextAvailableAccount_def Let_def split: prod.splits)
    ultimately show ?thesis by auto
  next
    case None
    let ?others = "filter (\<lambda>a. accountId a \<noteq> ex) ?al"
    have "distinct (map accountId ?al)" using d by simp
    from filter_other_nonempty [OF this, of ex] l have ne: "?others \<noteq> []" by simp
    from getAccountWithShortestCooldown_some [OF ne, of now] obtain r where
      r: "getAccountWithShortestCooldown ?others now = Some r" "r \<in> set ?others" by blast
    have "fst (getNextAvailableAccount p ex now) = Some r"
      using l None r(1) by (auto simp: getNextAvailableAccount_def Let_def split: prod.splits)
    with r(2) show ?thesis by auto
  qed
qed

lemma getNextAvailableAccount_loop_errorCount:
  "map_of (accounts (snd (getNextAvailableAccount_loop accs ex now p))) k' = Some b \<Longrightarrow>
   map_of (accounts p) k' = Some b \<or> errorCount b = Some 0"
proof (induction accs arbitrary: p)
  case Nil
  then show ?case by simp
next
  case (Cons a accs)
  show ?case
  proof (cases "accountId a \<noteq> ex")
    case False
    with Cons show ?thesis by simp
  next
    case ne: True
    show ?thesis
    proof (cases "fst (isAccountAvailable p a now)")
      case True
      with ne Cons.prems show ?thesis by (simp add: Let_def isAccountAvailable_errorCount)
    next
      case False
      then have "snd (isAccountAvailable p a now) = p" by (rule isAccountAvailable_unavailable_same)
      with ne False Cons show ?thesis by (simp add: Let_def)
    qed
  qed
qed

lemma getNextAvailableAccount_errorCount:
  "map_of (accounts (snd (getNextAvailableAccount p ex now))) k' = Some b \<Longrightarrow>
   map_of (accounts p) k' = Some b \<or> errorCount b = Some 0"
  using getNextAvailableAccount_loop_errorCount [of "map snd (accounts p)" ex now p k' b]
  by (auto simp: getNextAvailableAccount_def Let_def split: if_splits prod.splits option.splits)

subsection \<open>Outcome reporting, registry and diagnostics\<close>


lemma recordError_lookup:
  assumes "map_of (accounts p) k = Some a"
    and "applyErrorType (config p) now et
           (orZero (errorCount a), orZero (cooldownUntil a), autoRecoverAt a,
            isAvailable a \<noteq> Some False) = Inr (ec, cu, ar, av)"
  shows "fst (recordError p now k et) = Inr ()"
    and "map_of (accounts (snd (recordError p now k et))) k =
           Some (a\<lparr> errorCount := Some ec, cooldownUntil := Some cu, autoRecoverAt := ar,
                    isAvailable := Some av, lastUsed := Some now \<rparr>)"
  using assms by (simp_all add: recordError_def Let_def map_of_update_same split: option.splits)

lemma recordError_throws:
  assumes "map_of (accounts p) k = Some a"
    and "applyErrorType (config p) now et
           (orZero (errorCount a), orZero (cooldownUntil a), autoRecoverAt a,
            isAvailable a \<noteq> Some False) = Inl e"
  shows "recordError p now k et = (Inl e, p)"
  using assms by (simp add: recordError_def)

lemma recordError_returns_or_same:
  "fst (recordError p now k et) = Inr () \<or> snd (recordError p now k et) = p"
  by (simp add: recordError_def Let_def split: option.splits sum.splits prod.splits)

lemma recordError_other:
  "k' \<noteq> k \<Longrightarrow> map_of (accounts (snd (recordError p now k et))) k' = map_of (accounts p) k'"
  by (simp add: recordError_def Let_def map_of_update_other
      split: option.splits sum.splits prod.splits)

lemma recordError_absent:
  "map_of (accounts p) k = None \<Longrightarrow> recordError p now k et = (Inr (), p)"
  by (simp add: recordError_def)

lemma applyErrorType_errorCount:
  "applyErrorType cfg now et (ec, cu, ar, av) = Inr (ec', cu', ar', av') \<Longrightarrow>
   ec' = ec + (if et = Server \<or> et = Unknown then 1 else 0)"
  by (cases et) (auto split: if_splits)

lemma recordError_errorCount:
  assumes a: "map_of (accounts p) k = Some a"
    and ok: "fst (recordError p now k et) = Inr ()"
  shows "\<exists>b. map_of (accounts (snd (recordError p now k et))) k = Some b
           \<and> errorCount b = Some (orZero (errorCount a)
                                   + (if et = Server \<or> et = Unknown then 1 else 0))"
proof (cases "applyErrorType (config p) now et
           (orZero (errorCount a), orZero (cooldownUntil a), autoRecoverAt a,
            isAvailable a \<noteq> Some False)")
  case (Inl e)
  from recordError_throws [OF a Inl] ok show ?thesis by simp
next
  case (Inr t)
  obtain ec cu ar av where t: "t = (ec, cu, ar, av)" by (metis prod_cases4)
  from Inr t have ap: "applyErrorType (config p) now et
           (orZero (errorCount a), orZero (cooldownUntil a), autoRecoverAt a,
            isAvailable a \<noteq> Some False) = Inr (ec, cu, ar, av)" by simp
  from applyErrorType_errorCount [OF ap] recordError_lookup(2) [OF a ap]
  show ?thesis by simp
qed

lemma recordSuccess_lookup:
  "map_of (accounts p) k = Some a \<Longrightarrow>
   map_of (accounts (recordSuccess p now now' k n)) k =
     Some (a\<lparr> requestCount := Some (orZero (requestCount a) + 1), errorCount := Some 0,
              lastUsed := Some now, isAvailable := Some True \<rparr>)"
  by (simp add: recordSuccess_def Let_def map_of_update_same split: option.splits)

lemma recordSuccess_other:
  "k' \<noteq> k \<Longrightarrow> map_of (accounts (recordSuccess p now now' k n)) k' = map_of (accounts p) k'"
  by (simp add: recordSuccess_def Let_def map_of_update_other split: option.splits)

lemma recordSuccess_config_cursor:
  "config (recordSuccess p now now' k n) = config p"
  "currentIndex (recordSuccess p now now' k n) = currentIndex p"
  by (simp_all add: recordSuccess_def Let_def split: option.splits)

lemma recordSuccess_keys:
  "map fst (accounts (recordSuccess p now now' k n)) = map fst (accounts p)"
  by (simp add: recordSuccess_def Let_def map_fst_update_present split: option.splits)

lemma getAccountDiagnostics_errorCount:
  "map_of (accounts (snd (getAccountDiagnostics p k now))) k' = Some b \<Longrightarrow>
   map_of (accounts p) k' = Some b \<or> errorCount b = Some 0"
  by (auto simp: getAccountDiagnostics_def Let_def isAccountAvailable_errorCount split: option.splits)

lemma addAccount_errorCount:
  "map_of (accounts (addAccount p x)) k' = Some b \<Longrightarrow>
   map_of (accounts p) k' = Some b \<or> errorCount b = Some 0"
  by (auto simp: addAccount_def update_conv' split: if_splits)

lemma removeAccount_errorCount:
  "map_of (accounts (removeAccount p k'')) k' = Some b \<Longrightarrow> map_of (accounts p) k' = Some b"
  by (auto simp: removeAccount_def delete_conv' split: if_splits)

lemma recordSuccess_errorCount:
  "map_of (accounts (recordSuccess p now now' k n)) k' = Some b \<Longrightarrow>
   map_of (accounts p) k' = Some b \<or> errorCount b = Some 0"
  by (cases "k' = k"; cases "map_of (accounts p) k")
     (auto simp: recordSuccess_def Let_def update_conv' split: option.splits)

lemma updateAccount_lookup:
  "map_of (accounts p) k = Some a \<Longrightarrow>
   \<exists>b. map_of (accounts (updateAccount p k u)) k = Some b
       \<and> errorCount b = spread (errorCount a) (upd_errorCount u)"
  by (simp add: updateAccount_def map_of_update_same)

lemma updateAccount_other:
  "k' \<noteq> k \<Longrightarrow> map_of (accounts (updateAccount p k u)) k' = map_of (accounts p) k'"
  by (simp add: updateAccount_def map_of_update_other split: option.splits)

lemma markNeedsRefresh_errorCount:
  "map_of (accounts p) k' = Some a \<Longrightarrow> map_of (accounts (markNeedsRefresh p now k)) k' = Some b \<Longrightarrow>
   errorCount b = errorCount a"
  by (cases "k' = k")
     (auto simp: markNeedsRefresh_def update_conv' split: option.splits)

lemma map_of_map_entries:
  "map_of (map (\<lambda>(k, v). (k, f v)) al) k' = map_option f (map_of al k')"
  by (induction al) auto

lemma reset_errorCount:
  "map_of (accounts (reset p)) k' = Some b \<Longrightarrow> errorCount b = Some 0"
  by (auto simp: reset_def map_of_map_entries)

lemma resetAllAccountStates_errorCount:
  "map_of (accounts (snd (resetAllAccountStates p))) k' = Some b \<Longrightarrow> errorCount b = Some 0"
  by (auto simp: resetAllAccountStates_def map_of_map_entries)

lemma resetAccountState_errorCount:
  "map_of (accounts (snd (resetAccountState p k))) k' = Some b \<Longrightarrow>
   map_of (accounts p) k' = Some b \<or> errorCount b = Some 0"
  by (cases "k' = k")
     (auto simp: resetAccountState_def update_conv' split: option.splits)

lemma availableCount_loop_errorCount:
  "map_of (accounts (snd (availableCount_loop now i count p))) k' = Some b \<Longrightarrow>
   map_of (accounts p) k' = Some b \<or> errorCount b = Some 0"
proof (induction now i count p rule: availableCount_loop.induct)
  case (1 now i count p)
  let ?r = "isAccountAvailable p (snd (accounts p ! i)) now"
  show ?case
  proof (cases "i < length (accounts p)")
    case False
    with "1.prems" show ?thesis by (subst (asm) availableCount_loop.simps) simp
  next
    case True
    with "1.prems" have "map_of (accounts (snd (availableCount_loop now (i + 1)
        (if fst ?r then count + 1 else count) (snd ?r)))) k' = Some b"
      by (subst (asm) availableCount_loop.simps) (simp add: Let_def)
    from "1.IH" [OF True refl this]
    have "map_of (accounts (snd ?r)) k' = Some b \<or> errorCount b = Some 0" .
    then show ?thesis using isAccountAvailable_errorCount by blast
  qed
qed

lemma availableCount_errorCount:
  "map_of (accounts (snd (availableCount p now))) k' = Some b \<Longrightarrow>
   map_of (accounts p) k' = Some b \<or> errorCount b = Some 0"
  unfolding availableCount_def by (rule availableCount_loop_errorCount)

text \<open>
  Every public method and one stored account: the method is a \<open>recordError\<close> on that
  account that returns, or an \<open>updateAccount\<close> on it that supplies \<open>errorCount\<close>, or the
  count is as before or 0.
\<close>

lemma perform_errorCount:
  assumes a: "map_of (accounts p) k = Some a"
    and b: "map_of (accounts (perform p op)) k = Some b"
  shows "(\<exists>now et. op = RecordError now k et \<and> fst (recordError p now k et) = Inr ()
            \<and> errorCount b = Some (orZero (errorCount a)
                                    + (if et = Server \<or> et = Unknown then 1 else 0)))
       \<or> (\<exists>u v. op = UpdateAccount k u \<and> upd_errorCount u = Some v \<and> errorCount b = v)
       \<or> errorCount b = errorCount a
       \<or> errorCount b = Some 0"
proof -
  have frame: "errorCount b = errorCount a \<or> errorCount b = Some 0"
    if "map_of (accounts p) k = Some b \<or> errorCount b = Some 0"
    using that a by auto
  show ?thesis
  proof (cases op)
    case (AddAccount x)
    with b frame [OF addAccount_errorCount] show ?thesis by simp
  next
    case (RemoveAccount k')
    with b have "map_of (accounts (removeAccount p k')) k = Some b" by simp
    then have "map_of (accounts p) k = Some b" by (rule removeAccount_errorCount)
    with frame show ?thesis by simp
  next
    case (UpdateAccount k' u)
    show ?thesis
    proof (cases "k' = k")
      case False
      with b UpdateAccount a show ?thesis by (simp add: updateAccount_other)
    next
      case True
      from updateAccount_lookup [OF a, of u] b UpdateAccount True
      have eb: "errorCount b = spread (errorCount a) (upd_errorCount u)" by auto
      show ?thesis
      proof (cases "upd_errorCount u")
        case None
        with eb show ?thesis by (simp add: spread_def)
      next
        case (Some v)
        with eb UpdateAccount True show ?thesis by (simp add: spread_def)
      qed
    qed
  next
    case (GetNextAccount now)
    with b frame [OF getNextAccount_errorCount] show ?thesis by simp
  next
    case (GetAccount k')
    with a b show ?thesis by simp
  next
    case (GetNextAvailableAccount ex now)
    with b frame [OF getNextAvailableAccount_errorCount] show ?thesis by simp
  next
    case GetAllAccounts
    with a b show ?thesis by simp
  next
    case (RecordSuccess now now' k' n)
    with b frame [OF recordSuccess_errorCount] show ?thesis by simp
  next
    case (RecordError now k' et)
    show ?thesis
    proof (cases "k' = k")
      case False
      with b RecordError a show ?thesis by (simp add: recordError_other)
    next
      case True
      show ?thesis
      proof (cases "fst (recordError p now k et) = Inr ()")
        case False
        with recordError_returns_or_same [of p now k et] have "snd (recordError p now k et) = p"
          by simp
        with a b RecordError True show ?thesis by simp
      next
        case ok: True
        from recordError_errorCount [OF a ok] b RecordError True
        have "errorCount b = Some (orZero (errorCount a)
                                    + (if et = Server \<or> et = Unknown then 1 else 0))"
          by auto
        with RecordError True ok show ?thesis by simp
      qed
    qed
  next
    case (MarkNeedsRefresh now k')
    with b markNeedsRefresh_errorCount [OF a] show ?thesis by simp
  next
    case GetStats
    with a b show ?thesis by simp
  next
    case Reset
    with b reset_errorCount show ?thesis by simp
  next
    case Clear
    with b show ?thesis by (simp add: clear_def)
  next
    case Size
    with a b show ?thesis by simp
  next
    case (AvailableCount now)
    with b frame [OF availableCount_errorCount] show ?thesis by simp
  next
    case (GetAccountDiagnostics k' now)
    with b frame [OF getAccountDiagnostics_errorCount] show ?thesis by simp
  next
    case (ResetAccountState k')
    with b frame [OF resetAccountState_errorCount] show ?thesis by simp
  next
    case ResetAllAccountStates
    with b resetAllAccountStates_errorCount show ?thesis by simp
  qed
qed

subsection \<open>The example pools\<close>

lemma pool_ab_accounts: "accounts pool_ab = [(''a'', registered ''a''), (''b'', registered ''b'')]"
  by (simp add: pool_ab_def addAccount_def newAccountPool_def acct_def registered_def)

lemma pool_ab_rest: "config pool_ab = DEFAULT_CONFIG" "currentIndex pool_ab = 0"
  by (simp_all add: pool_ab_def addAccount_def newAccountPool_def)

lemma lookup_a: "map_of (accounts pool_ab) ''a'' = Some (registered ''a'')"
  by (simp add: pool_ab_accounts)

lemma registered_simps:
  "accountId (registered k) = k" "errorCount (registered k) = Some 0"
  "autoRecoverAt (registered k) = None" "cooldownUntil (registered k) = None"
  "isAvailable (registered k) = Some True" "expiresAt (registered k) = None"
  "requestCount (registered k) = Some 0" "email (registered k) = None"
  by (simp_all add: registered_def)

lemma lookup_a_quota: "map_of (accounts pool_quota) ''a'' = Some acct_a_quota"
  by code_simp

lemma lookup_a_auth: "map_of (accounts pool_auth) ''a'' = Some acct_a_auth"
  by code_simp

lemma lookup_a_auth_quota: "map_of (accounts pool_auth_quota) ''a'' = Some acct_a_auth"
  by code_simp

lemma lookup_a_server: "map_of (accounts pool_server) ''a'' = Some acct_a_server"
  by code_simp

lemma lookup_a_quota_auth_success:
  "map_of (accounts pool_quota_auth_success) ''a'' = Some acct_a_quota_auth_success"
  by code_simp

lemma lookup_a_quota_auth: "map_of (accounts pool_quota_auth) ''a'' = Some acct_a_quota_auth"
  by code_simp

subsection \<open>What the fallback ranks by\<close>

text \<open>
  When no account passes the availability predicate and the cursor is inside the list, so
  that the scan reaches the fallback, and the clock is not before 1970, an account \<open>x\<close>
  with no cooldown set has wait 0 whatever makes it unavailable, and \<open>getNextAccount\<close>
  returns the first account with wait 0: never an account whose cooldown ends after \<open>now\<close>,
  and \<open>x\<close> itself when every other account has such a cooldown. The example is the pool
  where \<open>a\<close> has an auth error and \<open>b\<close> a quota cooldown.
\<close>

lemma getNextAccount_fallback_ranking:
  assumes c: "currentIndex p < length (accounts p)"
    and un: "\<forall>a \<in> snd ` set (accounts p). \<not> fst (isAccountAvailable p a now)"
    and x: "x \<in> snd ` set (accounts p)"
    and nc: "\<not> truthy (cooldownUntil x)"
    and clock: "0 \<le> now"
  shows "waitOf x now = 0
       \<and> (\<exists>r. getNextAccount p now = (Inr (Some r), p)
             \<and> find (\<lambda>a. waitOf a now = 0) (map snd (accounts p)) = Some r
             \<and> waitOf r now = 0
             \<and> (\<forall>b \<in> snd ` set (accounts p). now < orZero (cooldownUntil b) \<longrightarrow> r \<noteq> b)
             \<and> ((\<forall>b \<in> snd ` set (accounts p). b \<noteq> x \<longrightarrow> now < orZero (cooldownUntil b))
                  \<longrightarrow> r = x))"
proof -
  let ?al = "map snd (accounts p)"
  have ne: "accounts p \<noteq> []" using c by auto
  have wx: "waitOf x now = 0"
  proof -
    from nc have "orZero (cooldownUntil x) = 0" by (simp add: truthy_def orZero_def split: option.splits)
    then show ?thesis using clock by (simp add: waitOf_def)
  qed
  with x have ex: "\<exists>y \<in> set ?al. waitOf y now = 0" by auto
  then obtain r where r: "find (\<lambda>a. waitOf a now = 0) ?al = Some r"
    by (cases "find (\<lambda>a. waitOf a now = 0) ?al") (auto simp: find_None_iff)
  then have rin: "r \<in> set ?al" and wr: "waitOf r now = 0"
    by (auto simp: find_Some_iff)
  have res: "getNextAccount p now = (Inr (Some r), p)"
    using getNextAccount_fallback [OF ne c un] getAccountWithShortestCooldown_find_zero [OF ex] r
    by simp
  have later: "\<forall>b \<in> snd ` set (accounts p). now < orZero (cooldownUntil b) \<longrightarrow> r \<noteq> b"
    using wr by (auto simp: waitOf_def)
  have only: "(\<forall>b \<in> snd ` set (accounts p). b \<noteq> x \<longrightarrow> now < orZero (cooldownUntil b)) \<longrightarrow> r = x"
    using rin later by auto
  from wx res r wr later only show ?thesis by blast
qed

lemma getNextAccount_fallback_ranking_example:
  "getNextAccount pool_auth_quota 2000 = (Inr (Some acct_a_auth), pool_auth_quota)"
proof -
  have c: "currentIndex pool_auth_quota < length (accounts pool_auth_quota)" by code_simp
  have un: "\<forall>a \<in> snd ` set (accounts pool_auth_quota). \<not> fst (isAccountAvailable pool_auth_quota a 2000)"
    by code_simp
  have x: "acct_a_auth \<in> snd ` set (accounts pool_auth_quota)" by code_simp
  have nc: "\<not> truthy (cooldownUntil acct_a_auth)" by (simp add: acct_a_auth_def truthy_def)
  have clock: "(0::int) \<le> 2000" by simp
  have others: "\<forall>b \<in> snd ` set (accounts pool_auth_quota). b \<noteq> acct_a_auth \<longrightarrow> 2000 < orZero (cooldownUntil b)"
    by code_simp
  show ?thesis
    using getNextAccount_fallback_ranking [OF c un x nc clock] others by auto
qed


section \<open>The claims\<close>

subsection \<open>C1: when the selection calls return null\<close>

text \<open>
  Claim C1: \<open>getNextAccount\<close> returns \<open>null\<close> exactly when the pool is empty, and for
  every non-empty pool it returns some account; \<open>getNextAvailableAccount\<close> returns
  \<open>null\<close> exactly when the pool holds at most one account.

  The part on \<open>getNextAvailableAccount\<close> holds (\<open>getNextAvailableAccount_few\<close>,
  \<open>getNextAvailableAccount_some\<close>), and so does the part on \<open>getNextAccount\<close> while the
  cursor is inside the list (\<open>getNextAccount_empty\<close>, \<open>getNextAccount_returns\<close>). But
  \<open>removeAccount\<close> does not touch the cursor: after \<open>addAccount a\<close>, \<open>addAccount b\<close>, one
  \<open>getNextAccount\<close> (cursor 1) and \<open>removeAccount b\<close>, the pool holds the one account
  \<open>a\<close>, the cursor is 1, and the next \<open>getNextAccount\<close> reads \<open>accountList[1]\<close>, which is
  \<open>undefined\<close>, and throws a \<open>TypeError\<close> instead of returning an account.
\<close>

theorem getNextAccount_throws_on_nonempty_pool: "accounts pool_stale2 = [(''a'', registered ''a'')]
    \<and> fst (getNextAccount pool_stale2 2000) = Inl TypeError"
  by code_simp

subsection \<open>C2: three consecutive unknown errors\<close>




subsection \<open>C3: the cursor and the length of the list\<close>

text \<open>
  Claim C3: the round-robin cursor is always inside \<open>[0, number of accounts)\<close>, also
  after a removal that shrinks the list below the cursor, so that the next
  \<open>getNextAccount\<close> never indexes past the end of the snapshot and never reads an
  undefined account.

  \<open>getNextAccount\<close> keeps the cursor inside the list by its modulo
  (\<open>getNextAccount_cursor_in_range\<close>) and \<open>addAccount\<close> never shortens the list
  (\<open>addAccount_length\<close>), but \<open>removeAccount\<close> leaves the cursor as it is. After three
  additions, two selections (cursor 2) and the removal of \<open>c\<close>, the list has length 2 and
  the cursor is 2: the next \<open>getNextAccount\<close> reads \<open>accountList[2]\<close>, which is
  \<open>undefined\<close>, and throws. \<open>getNextAccount_stale_cursor\<close> is the general statement.
\<close>

theorem removeAccount_leaves_cursor_past_end: "length (accounts pool_stale3) = 2 \<and> currentIndex pool_stale3 = 2
    \<and> fst (getNextAccount pool_stale3 3000) = Inl TypeError"
  by code_simp

subsection \<open>C4: round-robin order\<close>

text \<open>
  Claim C4, as amended: in a pool of \<open>N\<close> accounts that are all available, with the cursor
  at a position \<open>c\<close> inside the list, \<open>N\<close> consecutive \<open>getNextAccount\<close> calls return each
  account exactly once, in insertion order rotated to start at position \<open>c\<close>, and the
  \<open>(N+1)\<close>-th call returns the same account as the first call. With the cursor at 0, as
  after construction, \<open>reset\<close> or \<open>clear\<close>, this is the insertion order itself followed by
  the first account again.
\<close>

theorem round_robin_from_cursor:
  assumes c: "currentIndex p < length (accounts p)"
    and len: "length ts = length (accounts p) + 1"
    and av: "\<forall>t \<in> set ts. allAvailable p t"
  shows "take (length (accounts p)) (fst (selectMany p ts))
           = map (\<lambda>a. Inr (Some a)) (rotate (currentIndex p) (map snd (accounts p)))
       \<and> fst (selectMany p ts) ! length (accounts p) = fst (selectMany p ts) ! 0
       \<and> (currentIndex p = 0 \<longrightarrow>
            fst (selectMany p ts)
              = map (\<lambda>a. Inr (Some a)) (map snd (accounts p) @ [hd (map snd (accounts p))]))"
proof -
  let ?al = "map snd (accounts p)"
  let ?N = "length (accounts p)"
  let ?c = "currentIndex p"
  let ?f = "\<lambda>i. (Inr (Some (?al ! ((?c + i) mod ?N))) :: error + ProxyAccount option)"
  have ne: "?al \<noteq> []" using c by auto
  have res: "fst (selectMany p ts) = map ?f [0..<?N + 1]"
    using selectMany_round_robin [OF c av] len by simp
  have t1: "take ?N (fst (selectMany p ts)) = map ?f [0..<?N]"
    by (simp add: res take_map)
  also have "\<dots> = map (\<lambda>a. Inr (Some a)) (rotate ?c ?al)"
    using rotate_as_map [OF ne, of ?c] by (simp add: comp_def)
  finally have A: "take ?N (fst (selectMany p ts)) = map (\<lambda>a. Inr (Some a)) (rotate ?c ?al)" .
  have B: "fst (selectMany p ts) ! ?N = fst (selectMany p ts) ! 0"
  proof -
    have "map ?f [0..<?N + 1] ! ?N = ?f ?N" by (simp only: nth_map_upt) simp
    moreover have "map ?f [0..<?N + 1] ! 0 = ?f 0" using c by (simp only: nth_map_upt) simp
    ultimately show ?thesis by (simp add: res)
  qed
  have C: "?c = 0 \<longrightarrow> fst (selectMany p ts) = map (\<lambda>a. Inr (Some a)) (?al @ [hd ?al])"
  proof
    assume z: "?c = 0"
    have "fst (selectMany p ts) = map ?f [0..<?N] @ [?f ?N]"
      by (simp add: res)
    also have "map ?f [0..<?N] = map (\<lambda>a. Inr (Some a)) ?al"
      using A z t1 by simp
    also have "?f ?N = Inr (Some (hd ?al))"
      using ne z by (simp add: hd_conv_nth)
    finally show "fst (selectMany p ts) = map (\<lambda>a. Inr (Some a)) (?al @ [hd ?al])" by simp
  qed
  from A B C show ?thesis by blast
qed

text \<open>
  The theorem at the fresh pool of \<open>a\<close> and \<open>b\<close>: three calls return \<open>a\<close>, \<open>b\<close>, \<open>a\<close>.
\<close>

theorem round_robin_from_cursor_witness:
  "fst (selectMany pool_ab [1000, 2000, 3000])
     = [Inr (Some (registered ''a'')), Inr (Some (registered ''b'')), Inr (Some (registered ''a''))]"
proof -
  have c: "currentIndex pool_ab < length (accounts pool_ab)"
    by (simp add: pool_ab_rest pool_ab_accounts)
  have len: "length [1000, 2000, 3000 :: int] = length (accounts pool_ab) + 1"
    by (simp add: pool_ab_accounts)
  have av: "\<forall>t \<in> set [1000, 2000, 3000]. allAvailable pool_ab t"
    by code_simp
  show ?thesis
    using round_robin_from_cursor [OF c len av] by (simp add: pool_ab_rest pool_ab_accounts)
qed

text \<open>
  The claim as stated fails when the cursor is not at 0. After one selection on the pool of
  \<open>a\<close> and \<open>b\<close> both accounts are still available and the cursor is 1; the next three
  calls return \<open>b\<close>, \<open>a\<close>, \<open>b\<close>, not the insertion order \<open>a\<close>, \<open>b\<close> followed by \<open>a\<close>.
\<close>

theorem round_robin_rotated_order: "map snd (accounts (snd (getNextAccount pool_ab 1000))) = [registered ''a'', registered ''b'']
    \<and> allAvailable (snd (getNextAccount pool_ab 1000)) 2000
    \<and> allAvailable (snd (getNextAccount pool_ab 1000)) 3000
    \<and> allAvailable (snd (getNextAccount pool_ab 1000)) 4000
    \<and> fst (selectMany (snd (getNextAccount pool_ab 1000)) [2000, 3000, 4000])
        = [Inr (Some (registered ''b'')), Inr (Some (registered ''a'')), Inr (Some (registered ''b''))]"
  by code_simp

subsection \<open>C5: auth errors and auto-recovery\<close>

text \<open>
  Claim C5: a \<open>recordError\<close> classified \<open>auth\<close> at time \<open>now\<close> returns and makes the
  availability predicate return unavailable at every time strictly before
  \<open>now + autoRecoverMs\<close>; at every time at or after \<open>now + autoRecoverMs\<close> the predicate
  returns available and stores the account with \<open>errorCount = 0\<close> (and
  \<open>isAvailable = true\<close>, both deadlines cleared), with no reset call. The account is stored
  under its own id, as \<open>addAccount\<close> stores it. The deadline \<open>now + autoRecoverMs\<close> is a
  timestamp: inside the range of a \<open>Date\<close>, outside of which the call throws on its log
  line and records nothing, and not the number 0, which JavaScript treats as unset.
\<close>

theorem auth_error_auto_recovers:
  assumes a: "map_of (accounts p) k = Some a"
    and key: "accountId a = k"
    and nz: "now + autoRecoverMs (config p) \<noteq> 0"
    and valid: "isValidDate (now + autoRecoverMs (config p))"
  shows "\<exists>a1. fst (recordError p now k Auth) = Inr ()
           \<and> map_of (accounts (snd (recordError p now k Auth))) k = Some a1
           \<and> autoRecoverAt a1 = Some (now + autoRecoverMs (config p))
           \<and> (\<forall>t. t < now + autoRecoverMs (config p) \<longrightarrow>
                 isAccountAvailable (snd (recordError p now k Auth)) a1 t
                   = (False, snd (recordError p now k Auth)))
           \<and> (\<forall>t. now + autoRecoverMs (config p) \<le> t \<longrightarrow>
                 fst (isAccountAvailable (snd (recordError p now k Auth)) a1 t)
                 \<and> (\<exists>a2. map_of (accounts (snd (isAccountAvailable
                                    (snd (recordError p now k Auth)) a1 t))) k = Some a2
                       \<and> errorCount a2 = Some 0 \<and> isAvailable a2 = Some True
                       \<and> autoRecoverAt a2 = None \<and> cooldownUntil a2 = None))"
proof -
  let ?p1 = "snd (recordError p now k Auth)"
  let ?d = "now + autoRecoverMs (config p)"
  let ?a1 = "a\<lparr> errorCount := Some (orZero (errorCount a)),
                 cooldownUntil := Some (orZero (cooldownUntil a)),
                 autoRecoverAt := Some ?d, isAvailable := Some False, lastUsed := Some now \<rparr>"
  have ap: "applyErrorType (config p) now Auth
      (orZero (errorCount a), orZero (cooldownUntil a), autoRecoverAt a,
       isAvailable a \<noteq> Some False)
      = Inr (orZero (errorCount a), orZero (cooldownUntil a), Some ?d, False)"
    using valid by simp
  note r1 = recordError_lookup [OF a ap]
  have tr: "truthy (autoRecoverAt ?a1)" and oz: "orZero (autoRecoverAt ?a1) = ?d"
    using nz by (simp_all add: truthy_def orZero_def)
  have before: "\<forall>t. t < ?d \<longrightarrow> isAccountAvailable ?p1 ?a1 t = (False, ?p1)"
    using isAccountAvailable_pending [OF tr] oz by simp
  have after: "\<forall>t. ?d \<le> t \<longrightarrow> fst (isAccountAvailable ?p1 ?a1 t)
      \<and> (\<exists>a2. map_of (accounts (snd (isAccountAvailable ?p1 ?a1 t))) k = Some a2
            \<and> errorCount a2 = Some 0 \<and> isAvailable a2 = Some True
            \<and> autoRecoverAt a2 = None \<and> cooldownUntil a2 = None)"
  proof (intro allI impI)
    fix t assume "?d \<le> t"
    then have "isAccountAvailable ?p1 ?a1 t =
        (True, ?p1\<lparr> accounts := AList.update (accountId ?a1) (recovered ?a1) (accounts ?p1) \<rparr>)"
      using isAccountAvailable_recovers [OF tr] oz by simp
    then show "fst (isAccountAvailable ?p1 ?a1 t)
      \<and> (\<exists>a2. map_of (accounts (snd (isAccountAvailable ?p1 ?a1 t))) k = Some a2
            \<and> errorCount a2 = Some 0 \<and> isAvailable a2 = Some True
            \<and> autoRecoverAt a2 = None \<and> cooldownUntil a2 = None)"
      using key by (simp add: map_of_update_same recovered_def)
  qed
  show ?thesis
    using r1 before after by (intro exI [of _ ?a1]) simp
qed

text \<open>
  The theorem at the pool of \<open>a\<close> and \<open>b\<close> with an auth error on \<open>a\<close> at time 1000: the
  deadline is 301000.
\<close>

theorem auth_error_auto_recovers_witness:
  "\<exists>a1. map_of (accounts pool_auth) ''a'' = Some a1
      \<and> autoRecoverAt a1 = Some 301000
      \<and> (\<forall>t. t < 301000 \<longrightarrow> isAccountAvailable pool_auth a1 t = (False, pool_auth))
      \<and> (\<forall>t. 301000 \<le> t \<longrightarrow>
            fst (isAccountAvailable pool_auth a1 t)
            \<and> (\<exists>a2. map_of (accounts (snd (isAccountAvailable pool_auth a1 t))) ''a'' = Some a2
                  \<and> errorCount a2 = Some 0 \<and> isAvailable a2 = Some True
                  \<and> autoRecoverAt a2 = None \<and> cooldownUntil a2 = None))"
proof -
  have h2: "accountId (registered ''a'') = ''a''" by (simp add: registered_simps)
  have h3: "1000 + autoRecoverMs (config pool_ab) \<noteq> 0" by (simp add: pool_ab_rest DEFAULT_CONFIG_def)
  have h4: "isValidDate (1000 + autoRecoverMs (config pool_ab))"
    by (simp add: pool_ab_rest DEFAULT_CONFIG_def isValidDate_def)
  show ?thesis
    using auth_error_auto_recovers [OF lookup_a h2 h3 h4]
    by (simp add: pool_auth_def pool_ab_rest DEFAULT_CONFIG_def)
qed

subsection \<open>C6: how errorCount evolves\<close>

text \<open>
  Claim C6, as amended: for an account stored under \<open>k\<close>, a \<open>recordError\<close> that returns
  increments \<open>errorCount\<close> by exactly 1 when classified \<open>server\<close> or \<open>unknown\<close> and leaves
  it unchanged when classified \<open>quota\<close>, \<open>auth\<close> or \<open>network\<close> (it returns unless the
  deadline that its branch logs is outside the range of a \<open>Date\<close>, and then the pool is as
  before); \<open>recordSuccess\<close> resets \<open>errorCount\<close> to 0, and so does the auto-recovery inside
  the availability predicate, which otherwise leaves the pool as it is. For every public
  method of the class and every account stored before and after the call, the count
  afterwards is the count before, or 0, or the call is a \<open>recordError\<close> on that account, or
  it is an \<open>updateAccount\<close> on that account whose argument supplies \<open>errorCount\<close>: that
  method stores whatever count its caller gives. An \<open>errorCount\<close> that is \<open>undefined\<close>
  counts as 0.
\<close>

theorem errorCount_evolution:
  assumes a: "map_of (accounts p) k = Some a"
  shows "(fst (recordError p now k et) = Inr () \<longleftrightarrow>
            (case et of
               Quota \<Rightarrow> isValidDate (now + quotaResetMs (config p))
             | Auth \<Rightarrow> isValidDate (now + autoRecoverMs (config p))
             | Network \<Rightarrow> True
             | Server \<Rightarrow> True
             | Unknown \<Rightarrow> maxErrorCount (config p) \<le> orZero (errorCount a) + 1
                            \<longrightarrow> isValidDate (now + cooldownMs (config p))))
       \<and> (fst (recordError p now k et) = Inr () \<longrightarrow>
            (\<exists>b. map_of (accounts (snd (recordError p now k et))) k = Some b
                 \<and> errorCount b = Some (orZero (errorCount a)
                                         + (if et = Server \<or> et = Unknown then 1 else 0))))
       \<and> (fst (recordError p now k et) \<noteq> Inr () \<longrightarrow> snd (recordError p now k et) = p)
       \<and> (\<exists>b. map_of (accounts (recordSuccess p now now' k n)) k = Some b
                 \<and> errorCount b = Some 0)
       \<and> (truthy (autoRecoverAt a) \<and> orZero (autoRecoverAt a) \<le> now \<longrightarrow>
            fst (isAccountAvailable p a now)
            \<and> (\<exists>b. map_of (accounts (snd (isAccountAvailable p a now))) (accountId a) = Some b
                 \<and> errorCount b = Some 0))
       \<and> (\<not> (truthy (autoRecoverAt a) \<and> orZero (autoRecoverAt a) \<le> now) \<longrightarrow>
            snd (isAccountAvailable p a now) = p)
       \<and> (\<forall>op b. map_of (accounts (perform p op)) k = Some b \<longrightarrow>
            (\<exists>t e. op = RecordError t k e \<and> fst (recordError p t k e) = Inr ()
                 \<and> errorCount b = Some (orZero (errorCount a)
                                         + (if e = Server \<or> e = Unknown then 1 else 0)))
            \<or> (\<exists>u v. op = UpdateAccount k u \<and> upd_errorCount u = Some v \<and> errorCount b = v)
            \<or> errorCount b = errorCount a
            \<or> errorCount b = Some 0)"
proof -
  have 1: "fst (recordError p now k et) = Inr () \<longleftrightarrow>
            (case et of
               Quota \<Rightarrow> isValidDate (now + quotaResetMs (config p))
             | Auth \<Rightarrow> isValidDate (now + autoRecoverMs (config p))
             | Network \<Rightarrow> True
             | Server \<Rightarrow> True
             | Unknown \<Rightarrow> maxErrorCount (config p) \<le> orZero (errorCount a) + 1
                            \<longrightarrow> isValidDate (now + cooldownMs (config p)))"
    using a by (cases et) (simp_all add: recordError_def Let_def)
  have 2: "fst (recordError p now k et) = Inr () \<longrightarrow>
            (\<exists>b. map_of (accounts (snd (recordError p now k et))) k = Some b
                 \<and> errorCount b = Some (orZero (errorCount a)
                                         + (if et = Server \<or> et = Unknown then 1 else 0)))"
    using recordError_errorCount [OF a] by blast
  have 3: "fst (recordError p now k et) \<noteq> Inr () \<longrightarrow> snd (recordError p now k et) = p"
    using recordError_returns_or_same [of p now k et] by blast
  have 4: "\<exists>b. map_of (accounts (recordSuccess p now now' k n)) k = Some b \<and> errorCount b = Some 0"
    using recordSuccess_lookup [OF a] by simp
  have 5: "truthy (autoRecoverAt a) \<and> orZero (autoRecoverAt a) \<le> now \<longrightarrow>
            fst (isAccountAvailable p a now)
            \<and> (\<exists>b. map_of (accounts (snd (isAccountAvailable p a now))) (accountId a) = Some b
                 \<and> errorCount b = Some 0)"
    by (simp add: isAccountAvailable_recovers map_of_update_same recovered_def)
  have 6: "\<not> (truthy (autoRecoverAt a) \<and> orZero (autoRecoverAt a) \<le> now) \<longrightarrow>
            snd (isAccountAvailable p a now) = p"
    by (auto simp: isAccountAvailable_def)
  have 7: "\<forall>op b. map_of (accounts (perform p op)) k = Some b \<longrightarrow>
            (\<exists>t e. op = RecordError t k e \<and> fst (recordError p t k e) = Inr ()
                 \<and> errorCount b = Some (orZero (errorCount a)
                                         + (if e = Server \<or> e = Unknown then 1 else 0)))
            \<or> (\<exists>u v. op = UpdateAccount k u \<and> upd_errorCount u = Some v \<and> errorCount b = v)
            \<or> errorCount b = errorCount a
            \<or> errorCount b = Some 0"
    using perform_errorCount [OF a] by blast
  show ?thesis
    by (rule conjI [OF 1 conjI [OF 2 conjI [OF 3 conjI [OF 4 conjI [OF 5 conjI [OF 6 7]]]]]])
qed

text \<open>
  The theorem at the pool where \<open>a\<close> already has one server error (\<open>errorCount = 1\<close>): a
  second server error returns and gives 2, a quota error returns and leaves 1, a success
  gives 0, and the predicate at time 2000 leaves the pool unchanged. At the pool where \<open>a\<close> has an auth
  error the predicate at time 301000 recovers the account and stores \<open>errorCount = 0\<close>.
\<close>

theorem errorCount_evolution_witness:
  "fst (recordError pool_server 2000 ''a'' Server) = Inr ()
   \<and> (\<exists>b. map_of (accounts (snd (recordError pool_server 2000 ''a'' Server))) ''a'' = Some b
         \<and> errorCount b = Some 2)
   \<and> fst (recordError pool_server 2000 ''a'' Quota) = Inr ()
   \<and> (\<exists>b. map_of (accounts (snd (recordError pool_server 2000 ''a'' Quota))) ''a'' = Some b
         \<and> errorCount b = Some 1)
   \<and> (\<exists>b. map_of (accounts (recordSuccess pool_server 2000 2001 ''a'' 7)) ''a'' = Some b
         \<and> errorCount b = Some 0)
   \<and> snd (isAccountAvailable pool_server acct_a_server 2000) = pool_server
   \<and> fst (isAccountAvailable pool_auth acct_a_auth 301000)
   \<and> (\<exists>b. map_of (accounts (snd (isAccountAvailable pool_auth acct_a_auth 301000))) ''a'' = Some b
         \<and> errorCount b = Some 0)"
proof -
  note s = errorCount_evolution [OF lookup_a_server, of 2000 Server 2001 7]
  note q = errorCount_evolution [OF lookup_a_server, of 2000 Quota 2001 7]
  note r = errorCount_evolution [OF lookup_a_auth, of 301000 Server 301000 0]
  have ec: "orZero (errorCount acct_a_server) = 1" "errorCount acct_a_server = Some 1"
    by (simp_all add: acct_a_server_def orZero_def)
  have vq: "isValidDate (2000 + quotaResetMs (config pool_server))" by code_simp
  have nd: "\<not> (truthy (autoRecoverAt acct_a_server) \<and> orZero (autoRecoverAt acct_a_server) \<le> 2000)"
    by (simp add: acct_a_server_def truthy_def)
  have rd: "truthy (autoRecoverAt acct_a_auth) \<and> orZero (autoRecoverAt acct_a_auth) \<le> 301000"
    "accountId acct_a_auth = ''a''"
    by (simp_all add: acct_a_auth_def truthy_def orZero_def registered_simps)
  have 1: "fst (recordError pool_server 2000 ''a'' Server) = Inr ()"
    using s by simp
  have 2: "\<exists>b. map_of (accounts (snd (recordError pool_server 2000 ''a'' Server))) ''a'' = Some b
         \<and> errorCount b = Some 2"
    using s 1 ec by simp
  have 3: "fst (recordError pool_server 2000 ''a'' Quota) = Inr ()"
    using q vq by simp
  have 4: "\<exists>b. map_of (accounts (snd (recordError pool_server 2000 ''a'' Quota))) ''a'' = Some b
         \<and> errorCount b = Some 1"
    using q 3 ec by simp
  have 5: "\<exists>b. map_of (accounts (recordSuccess pool_server 2000 2001 ''a'' 7)) ''a'' = Some b
         \<and> errorCount b = Some 0"
    using s by blast
  have 6: "snd (isAccountAvailable pool_server acct_a_server 2000) = pool_server"
    using s nd by blast
  have 7: "fst (isAccountAvailable pool_auth acct_a_auth 301000)"
    "\<exists>b. map_of (accounts (snd (isAccountAvailable pool_auth acct_a_auth 301000))) ''a'' = Some b
         \<and> errorCount b = Some 0"
    using r rd by auto
  from 1 2 3 4 5 6 7 show ?thesis by (intro conjI)
qed

text \<open>
  The claim as stated fails for \<open>updateAccount\<close>: on the pool of \<open>a\<close> and \<open>b\<close>, where \<open>a\<close>
  has \<open>errorCount = 0\<close>, the call \<open>updateAccount('a', { errorCount: 1 })\<close> raises the count
  to 1 with no \<open>recordError\<close>.
\<close>

theorem updateAccount_raises_errorCount:
  "map_of (accounts pool_ab) ''a'' = Some (registered ''a'')
   \<and> errorCount (registered ''a'') = Some 0
   \<and> map_of (accounts (updateAccount pool_ab ''a'' (only_errorCount 1))) ''a''
       = Some ((registered ''a'')\<lparr> errorCount := Some 1 \<rparr>)"
  by code_simp

subsection \<open>C7: the token-expiry boundary\<close>

text \<open>
  Claim C7: an account with no cooldown, no auto-recover deadline, \<open>errorCount\<close> below the
  maximum and \<open>isAvailable\<close> not false is unavailable when
  \<open>expiresAt = now - expiryGracePeriodMs - 1\<close> and available when
  \<open>expiresAt = now - expiryGracePeriodMs + 1\<close>. In the first case \<open>expiresAt\<close> is a
  timestamp that is set, that is, not the number 0, which \<open>if (account.expiresAt)\<close> treats
  as unset.
\<close>

theorem token_expiry_boundary:
  assumes "\<not> truthy (autoRecoverAt a)" "\<not> truthy (cooldownUntil a)"
    and "orZero (errorCount a) < maxErrorCount (config p)"
    and "isAvailable a \<noteq> Some False"
  shows "(expiresAt a = Some (now - expiryGracePeriodMs (config p) - 1)
            \<and> now - expiryGracePeriodMs (config p) - 1 \<noteq> 0
          \<longrightarrow> isAccountAvailable p a now = (False, p))
       \<and> (expiresAt a = Some (now - expiryGracePeriodMs (config p) + 1)
          \<longrightarrow> isAccountAvailable p a now = (True, p))"
  using assms by (simp add: isAccountAvailable_def truthy_def orZero_def)

text \<open>
  The theorem at \<open>now = 1000000\<close> with the default grace period of 60000: expiry at 939999
  is unavailable, expiry at 940001 is available.
\<close>

theorem token_expiry_boundary_witness:
  "isAccountAvailable pool_ab (acct_expiring 939999) 1000000 = (False, pool_ab)
   \<and> isAccountAvailable pool_ab (acct_expiring 940001) 1000000 = (True, pool_ab)"
proof -
  have h1: "\<not> truthy (autoRecoverAt (acct_expiring e))" for e
    by (simp add: acct_expiring_def registered_simps truthy_def)
  have h2: "\<not> truthy (cooldownUntil (acct_expiring e))" for e
    by (simp add: acct_expiring_def registered_simps truthy_def)
  have h3: "orZero (errorCount (acct_expiring e)) < maxErrorCount (config pool_ab)" for e
    by (simp add: acct_expiring_def registered_simps orZero_def pool_ab_rest DEFAULT_CONFIG_def)
  have h4: "isAvailable (acct_expiring e) \<noteq> Some False" for e
    by (simp add: acct_expiring_def registered_simps)
  show ?thesis
    using token_expiry_boundary [OF h1 h2 h3 h4, of 939999 1000000] token_expiry_boundary [OF h1 h2 h3 h4, of 940001 1000000]
    by (simp add: acct_expiring_def pool_ab_rest DEFAULT_CONFIG_def)
qed

subsection \<open>C8: the frame of recordSuccess\<close>

text \<open>
  Claim C8, as amended: for every account in the pool, whatever its state, \<open>recordSuccess\<close>
  sets \<open>errorCount\<close> to 0 and \<open>isAvailable\<close> to true, increments \<open>requestCount\<close>, sets
  \<open>lastUsed\<close>, and leaves \<open>cooldownUntil\<close>, \<open>autoRecoverAt\<close>, \<open>expiresAt\<close>, the id and the
  label unchanged. After the success a cooldown that has not expired still makes the
  predicate answer unavailable at every time at which no auto-recover deadline of the
  account has been reached; once an auto-recover deadline, which the success leaves in
  place, has been reached, the predicate answers available and clears the cooldown.
\<close>

theorem recordSuccess_frame_effect:
  assumes a: "map_of (accounts p) k = Some a"
  shows "\<exists>a'. map_of (accounts (recordSuccess p now now' k n)) k = Some a'
           \<and> errorCount a' = Some 0 \<and> isAvailable a' = Some True
           \<and> cooldownUntil a' = cooldownUntil a
           \<and> autoRecoverAt a' = autoRecoverAt a \<and> expiresAt a' = expiresAt a
           \<and> accountId a' = accountId a \<and> email a' = email a
           \<and> requestCount a' = Some (orZero (requestCount a) + 1) \<and> lastUsed a' = Some now
           \<and> (\<forall>t. truthy (cooldownUntil a) \<and> t < orZero (cooldownUntil a)
                   \<and> \<not> (truthy (autoRecoverAt a) \<and> orZero (autoRecoverAt a) \<le> t)
                 \<longrightarrow> isAccountAvailable (recordSuccess p now now' k n) a' t
                       = (False, recordSuccess p now now' k n))
           \<and> (\<forall>t. truthy (autoRecoverAt a) \<and> orZero (autoRecoverAt a) \<le> t
                 \<longrightarrow> isAccountAvailable (recordSuccess p now now' k n) a' t
                       = (True, (recordSuccess p now now' k n)
                            \<lparr> accounts := AList.update (accountId a) (recovered a')
                                 (accounts (recordSuccess p now now' k n)) \<rparr>))"
proof -
  let ?a' = "a\<lparr> requestCount := Some (orZero (requestCount a) + 1), errorCount := Some 0,
              lastUsed := Some now, isAvailable := Some True \<rparr>"
  have "map_of (accounts (recordSuccess p now now' k n)) k = Some ?a'"
    by (rule recordSuccess_lookup [OF a])
  moreover have "\<forall>t. truthy (cooldownUntil a) \<and> t < orZero (cooldownUntil a)
                   \<and> \<not> (truthy (autoRecoverAt a) \<and> orZero (autoRecoverAt a) \<le> t)
                 \<longrightarrow> isAccountAvailable (recordSuccess p now now' k n) ?a' t
                       = (False, recordSuccess p now now' k n)"
    by (simp add: isAccountAvailable_cooling)
  moreover have "\<forall>t. truthy (autoRecoverAt a) \<and> orZero (autoRecoverAt a) \<le> t
                 \<longrightarrow> isAccountAvailable (recordSuccess p now now' k n) ?a' t
                       = (True, (recordSuccess p now now' k n)
                            \<lparr> accounts := AList.update (accountId a) (recovered ?a')
                                 (accounts (recordSuccess p now now' k n)) \<rparr>)"
    by (simp add: isAccountAvailable_recovers)
  ultimately show ?thesis by (intro exI [of _ ?a']) simp
qed

text \<open>
  The theorem at two pools. Where \<open>a\<close> has a quota cooldown until 3601000, after a success
  at time 2000 the cooldown is still there and at time 3000 the account is unavailable.
  Where \<open>a\<close> has the quota cooldown and an auth error (deadline 301000), after the success
  the predicate answers available at time 301000.
\<close>

theorem recordSuccess_frame_effect_witness:
  "(\<exists>a'. map_of (accounts (recordSuccess pool_quota 2000 2001 ''a'' 5)) ''a'' = Some a'
      \<and> errorCount a' = Some 0 \<and> isAvailable a' = Some True
      \<and> cooldownUntil a' = Some 3601000
      \<and> isAccountAvailable (recordSuccess pool_quota 2000 2001 ''a'' 5) a' 3000
          = (False, recordSuccess pool_quota 2000 2001 ''a'' 5))
   \<and> (\<exists>a'. map_of (accounts (recordSuccess pool_quota_auth 2000 2000 ''a'' 0)) ''a'' = Some a'
      \<and> cooldownUntil a' = Some 3601000
      \<and> fst (isAccountAvailable (recordSuccess pool_quota_auth 2000 2000 ''a'' 0) a' 301000))"
proof -
  have g: "truthy (cooldownUntil acct_a_quota) \<and> 3000 < orZero (cooldownUntil acct_a_quota)
      \<and> \<not> (truthy (autoRecoverAt acct_a_quota) \<and> orZero (autoRecoverAt acct_a_quota) \<le> 3000)"
    by (simp add: acct_a_quota_def truthy_def orZero_def)
  have c: "cooldownUntil acct_a_quota = Some 3601000" by (simp add: acct_a_quota_def)
  from recordSuccess_frame_effect [OF lookup_a_quota, of 2000 2001 5] obtain a' where
    a': "map_of (accounts (recordSuccess pool_quota 2000 2001 ''a'' 5)) ''a'' = Some a'"
      "errorCount a' = Some 0" "isAvailable a' = Some True"
      "cooldownUntil a' = cooldownUntil acct_a_quota"
      "\<forall>t. truthy (cooldownUntil acct_a_quota) \<and> t < orZero (cooldownUntil acct_a_quota)
                   \<and> \<not> (truthy (autoRecoverAt acct_a_quota) \<and> orZero (autoRecoverAt acct_a_quota) \<le> t)
                 \<longrightarrow> isAccountAvailable (recordSuccess pool_quota 2000 2001 ''a'' 5) a' t
                       = (False, recordSuccess pool_quota 2000 2001 ''a'' 5)"
    by blast
  from a'(5) g have "isAccountAvailable (recordSuccess pool_quota 2000 2001 ''a'' 5) a' 3000
          = (False, recordSuccess pool_quota 2000 2001 ''a'' 5)" by blast
  with a'(1-4) c have first: "\<exists>a'. map_of (accounts (recordSuccess pool_quota 2000 2001 ''a'' 5)) ''a'' = Some a'
      \<and> errorCount a' = Some 0 \<and> isAvailable a' = Some True
      \<and> cooldownUntil a' = Some 3601000
      \<and> isAccountAvailable (recordSuccess pool_quota 2000 2001 ''a'' 5) a' 3000
          = (False, recordSuccess pool_quota 2000 2001 ''a'' 5)" by auto
  have r: "truthy (autoRecoverAt acct_a_quota_auth) \<and> orZero (autoRecoverAt acct_a_quota_auth) \<le> 301000"
    by (simp add: acct_a_quota_auth_def truthy_def orZero_def)
  have c2: "cooldownUntil acct_a_quota_auth = Some 3601000" by (simp add: acct_a_quota_auth_def)
  from recordSuccess_frame_effect [OF lookup_a_quota_auth, of 2000 2000 0] obtain b' where
    b': "map_of (accounts (recordSuccess pool_quota_auth 2000 2000 ''a'' 0)) ''a'' = Some b'"
      "cooldownUntil b' = cooldownUntil acct_a_quota_auth"
      "\<forall>t. truthy (autoRecoverAt acct_a_quota_auth) \<and> orZero (autoRecoverAt acct_a_quota_auth) \<le> t
                 \<longrightarrow> isAccountAvailable (recordSuccess pool_quota_auth 2000 2000 ''a'' 0) b' t
                       = (True, (recordSuccess pool_quota_auth 2000 2000 ''a'' 0)
                            \<lparr> accounts := AList.update (accountId acct_a_quota_auth) (recovered b')
                                 (accounts (recordSuccess pool_quota_auth 2000 2000 ''a'' 0)) \<rparr>)"
    by blast
  from b'(3) r have "fst (isAccountAvailable (recordSuccess pool_quota_auth 2000 2000 ''a'' 0) b' 301000)"
    by simp
  with b'(1,2) c2 have second: "\<exists>a'. map_of (accounts (recordSuccess pool_quota_auth 2000 2000 ''a'' 0)) ''a'' = Some a'
      \<and> cooldownUntil a' = Some 3601000
      \<and> fst (isAccountAvailable (recordSuccess pool_quota_auth 2000 2000 ''a'' 0) a' 301000)"
    by auto
  from first second show ?thesis by (rule conjI)
qed

text \<open>
  The claim as stated fails for the second pool: after a quota error and an auth error at
  time 1000 and a success at time 2000, the account still has its cooldown until 3601000,
  which has not expired at time 301000, and the predicate answers available there.
\<close>

theorem recordSuccess_cooldown_not_gating:
  "map_of (accounts pool_quota_auth_success) ''a'' = Some acct_a_quota_auth_success
   \<and> cooldownUntil acct_a_quota_auth_success = Some 3601000
   \<and> (301000 :: int) < 3601000
   \<and> fst (isAccountAvailable pool_quota_auth_success acct_a_quota_auth_success 301000) = True"
  by code_simp

subsection \<open>C9: the diagnostics accessor\<close>

text \<open>
  Claim C9, as amended: \<open>getAccountDiagnostics\<close> never changes the statistics, the cursor
  or the configuration. It leaves the whole pool unchanged when the id is unknown and when
  the account's auto-recover deadline is unset or still in the future. When the deadline has
  been reached (\<open>autoRecoverAt <= now\<close>), the availability predicate that the accessor
  calls performs the auto-recovery, and the pool afterwards holds the recovered record of
  that account (\<open>isAvailable = true\<close>, \<open>errorCount = 0\<close>, both deadlines cleared).
\<close>

theorem getAccountDiagnostics_changes_only_by_recovery:
  "(map_of (accounts p) k = None \<longrightarrow> getAccountDiagnostics p k now = (None, p))
   \<and> (\<forall>a. map_of (accounts p) k = Some a
          \<and> \<not> (truthy (autoRecoverAt a) \<and> orZero (autoRecoverAt a) \<le> now)
        \<longrightarrow> snd (getAccountDiagnostics p k now) = p)
   \<and> (\<forall>a. map_of (accounts p) k = Some a
          \<and> truthy (autoRecoverAt a) \<and> orZero (autoRecoverAt a) \<le> now
        \<longrightarrow> snd (getAccountDiagnostics p k now)
              = p\<lparr> accounts := AList.update (accountId a) (recovered a) (accounts p) \<rparr>)
   \<and> accountStats (snd (getAccountDiagnostics p k now)) = accountStats p
   \<and> currentIndex (snd (getAccountDiagnostics p k now)) = currentIndex p
   \<and> config (snd (getAccountDiagnostics p k now)) = config p"
  by (auto simp: getAccountDiagnostics_def Let_def isAccountAvailable_def split: option.splits)

text \<open>
  The theorem for an unknown id, and for account \<open>a\<close> after an auth error at time 1000
  (deadline 301000): unchanged at time 2000, recovered at time 301000.
\<close>

theorem getAccountDiagnostics_changes_only_by_recovery_witness:
  "getAccountDiagnostics pool_ab ''z'' 1000 = (None, pool_ab)
   \<and> snd (getAccountDiagnostics pool_auth ''a'' 2000) = pool_auth
   \<and> snd (getAccountDiagnostics pool_auth ''a'' 301000)
       = pool_auth\<lparr> accounts := AList.update ''a'' (recovered acct_a_auth) (accounts pool_auth) \<rparr>"
proof -
  have n: "map_of (accounts pool_ab) ''z'' = None" by (simp add: pool_ab_accounts)
  have e: "\<not> (truthy (autoRecoverAt acct_a_auth) \<and> orZero (autoRecoverAt acct_a_auth) \<le> 2000)"
    by (simp add: acct_a_auth_def orZero_def)
  have l: "truthy (autoRecoverAt acct_a_auth) \<and> orZero (autoRecoverAt acct_a_auth) \<le> 301000"
    by (simp add: acct_a_auth_def orZero_def truthy_def)
  have i: "accountId acct_a_auth = ''a''" by (simp add: acct_a_auth_def registered_simps)
  show ?thesis
    using getAccountDiagnostics_changes_only_by_recovery [of pool_ab "''z''" 1000] getAccountDiagnostics_changes_only_by_recovery [of pool_auth "''a''" 2000]
      getAccountDiagnostics_changes_only_by_recovery [of pool_auth "''a''" 301000] n e l i lookup_a_auth
    by auto
qed

text \<open>
  The claim as stated fails there: the call at time 301000 changes the pool.
\<close>

theorem getAccountDiagnostics_not_read_only: "snd (getAccountDiagnostics pool_auth ''a'' 301000) \<noteq> pool_auth"
  by code_simp

subsection \<open>C10: what the fallback ranks by\<close>

text \<open>
  Claim C10: the fallback ranks by \<open>max(0, cooldownUntil - now)\<close> only, so for every pool
  where no account passes the availability predicate, an account with no cooldown set
  (but a pending \<open>autoRecoverAt\<close>, an \<open>errorCount\<close> at the maximum or an expired token)
  has wait 0 and is returned by \<open>getNextAccount\<close> ahead of any account whose cooldown ends
  later.

  The ranking is as the claim says whenever the scan reaches the fallback
  (\<open>getNextAccount_fallback_ranking\<close>). But the scan does not reach it when the cursor is
  past the end of the list: after \<open>addAccount a\<close>, \<open>addAccount b\<close>, one \<open>getNextAccount\<close>
  (cursor 1), an auth error on \<open>a\<close> and \<open>removeAccount b\<close>, the pool holds the one account
  \<open>a\<close>, which does not pass the predicate and has no cooldown set, and \<open>getNextAccount\<close>
  throws a \<open>TypeError\<close> instead of returning it.
\<close>

theorem getNextAccount_throws_before_fallback:
  "accounts pool_stale_auth = [(''a'', acct_a_auth)]
   \<and> fst (isAccountAvailable pool_stale_auth acct_a_auth 2000) = False
   \<and> truthy (cooldownUntil acct_a_auth) = False
   \<and> fst (getNextAccount pool_stale_auth 2000) = Inl TypeError"
  by code_simp

end
